theory Spec2Isabelle
  imports Main "HOL-Library.Char_ord" "HOL-Library.List_Lexorder" "HOL-Library.Product_Lexorder"
begin

section \<open>Python values used by \<open>pdf_merger.py\<close>\<close>

text \<open>
  Exceptions are values. Only their class matters to the script: it catches
  \<open>re.error\<close> around \<open>re.compile\<close>, \<open>Exception\<close> around the per-file work and around
  the final write, and lets everything else escape.
\<close>

datatype py_exn =
  ValueError | TypeError | OSError | PermissionError | PdfReadError | UnicodeEncodeError

subsection \<open>Strings\<close>

text \<open>
  A Python \<open>str\<close> is a sequence of code points. A \<^typ>\<open>char\<close> stands for one code
  point in the range 0..255 (the ASCII and Latin-1 blocks, where Python's code points
  and the character's number coincide), so a \<^typ>\<open>string\<close> is a Python string over
  these code points. The character classes below are those of Python on that range.
\<close>

definition code :: "char \<Rightarrow> nat" where
  "code c = of_char c"

text \<open>\<open>\d\<close> in a \<open>str\<close> pattern: the decimal digits (category Nd), here \<open>0\<close>..\<open>9\<close>.\<close>

definition is_decimal :: "char \<Rightarrow> bool" where
  "is_decimal c = (48 \<le> code c \<and> code c \<le> 57)"

text \<open>
  \<open>str.isdigit\<close> accepts every character whose numeric type is Decimal or Digit:
  \<open>0\<close>..\<open>9\<close> and the superscripts U+00B2, U+00B3 and U+00B9.
\<close>

definition isdigit_char :: "char \<Rightarrow> bool" where
  "isdigit_char c = (is_decimal c \<or> code c = 178 \<or> code c = 179 \<or> code c = 185)"

definition str_isdigit :: "string \<Rightarrow> bool" where
  "str_isdigit s = (s \<noteq> [] \<and> list_all isdigit_char s)"

text \<open>\<open>str.lower\<close>: \<open>A\<close>..\<open>Z\<close> and U+00C0..U+00DE (without the sign U+00D7) move up by 32.\<close>

definition lower_char :: "char \<Rightarrow> char" where
  "lower_char c =
     (let n = code c
      in if (65 \<le> n \<and> n \<le> 90) \<or> (192 \<le> n \<and> n \<le> 222 \<and> n \<noteq> 215)
         then char_of (n + 32) else c)"

definition str_lower :: "string \<Rightarrow> string" where
  "str_lower s = map lower_char s"

text \<open>
  \<open>int(text_part)\<close> for a \<open>text_part\<close> that passed \<open>isdigit()\<close> (no sign, blank or
  underscore can occur in it): the decimal value when every character is a decimal
  digit, \<open>ValueError\<close> otherwise.
\<close>

definition digit_val :: "char \<Rightarrow> int" where
  "digit_val c = int (code c - 48)"

definition int_of_digits :: "string \<Rightarrow> py_exn + int" where
  "int_of_digits s =
     (if s \<noteq> [] \<and> list_all is_decimal s
      then Inr (foldl (\<lambda>a c. 10 * a + digit_val c) 0 s)
      else Inl ValueError)"

text \<open>\<open><\<close> on \<open>str\<close>: lexicographic by code point, a proper prefix first.\<close>

fun str_lt :: "string \<Rightarrow> string \<Rightarrow> bool" where
  "str_lt [] [] = False"
| "str_lt [] (y # ys) = True"
| "str_lt (x # xs) [] = False"
| "str_lt (x # xs) (y # ys) = (if x = y then str_lt xs ys else code x < code y)"

subsection \<open>\<open>re.split(r'(\d+)', text)\<close>\<close>

text \<open>
  The pattern has one capture group, so the result alternates the text before a
  match and the match itself, and ends with the text after the last match. A match of
  \<open>\d+\<close> is a maximal run of decimal digits.
\<close>

function re_split_digits :: "string \<Rightarrow> string list" where
  "re_split_digits s =
     (let pre = takeWhile (\<lambda>c. \<not> is_decimal c) s;
          rest = dropWhile (\<lambda>c. \<not> is_decimal c) s
      in if rest = [] then [pre]
         else pre # takeWhile is_decimal rest # re_split_digits (dropWhile is_decimal rest))"
  by pat_completeness auto

termination re_split_digits
proof (relation "measure length")
  show "wf (measure length)" by simp
next
  fix s :: string and pre rest :: string
  assume rest: "rest = dropWhile (\<lambda>c. \<not> is_decimal c) s" and ne: "rest \<noteq> []"
  from ne obtain c cs where r: "rest = c # cs" by (cases rest) auto
  have "is_decimal (hd rest)" using hd_dropWhile [of "\<lambda>c. \<not> is_decimal c" s] ne rest by simp
  then have "dropWhile is_decimal rest = dropWhile is_decimal cs" using r by simp
  then have "length (dropWhile is_decimal rest) \<le> length cs"
    by (simp add: length_dropWhile_le)
  also have "length cs < length rest" using r by simp
  also have "length rest \<le> length s" unfolding rest by (rule length_dropWhile_le)
  finally show "(dropWhile is_decimal rest, s) \<in> measure length" by simp
qed

declare re_split_digits.simps [simp del]

subsection \<open>\<open>natural_sort_key\<close>\<close>

text \<open>An element of a sort key is a Python \<open>int\<close> or a Python \<open>str\<close>.\<close>

datatype key_part = KInt int | KStr string

text \<open>
  \<open>convert\<close>, the inner function: \<open>int(text_part) if text_part.isdigit() else
  text_part.lower()\<close>.
\<close>

definition convert :: "string \<Rightarrow> py_exn + key_part" where
  "convert text_part =
     (if str_isdigit text_part
      then (case int_of_digits text_part of Inl e \<Rightarrow> Inl e | Inr n \<Rightarrow> Inr (KInt n))
      else Inr (KStr (str_lower text_part)))"

text \<open>A list comprehension over a function that may raise: the first exception escapes.\<close>

fun comprehension :: "('a \<Rightarrow> py_exn + 'b) \<Rightarrow> 'a list \<Rightarrow> py_exn + 'b list" where
  "comprehension f [] = Inr []"
| "comprehension f (x # xs) =
     (case f x of
        Inl e \<Rightarrow> Inl e
      | Inr y \<Rightarrow> (case comprehension f xs of Inl e \<Rightarrow> Inl e | Inr ys \<Rightarrow> Inr (y # ys)))"

definition natural_sort_key :: "string \<Rightarrow> py_exn + key_part list" where
  "natural_sort_key text = comprehension convert (re_split_digits text)"

subsection \<open>Comparing keys and \<open>list.sort(key=...)\<close>\<close>

text \<open>
  \<open><\<close> on two key elements: integers by value, strings by code point; an \<open>int\<close> and a
  \<open>str\<close> are not ordered (\<open>TypeError\<close>).
\<close>

fun part_lt :: "key_part \<Rightarrow> key_part \<Rightarrow> py_exn + bool" where
  "part_lt (KInt a) (KInt b) = Inr (a < b)"
| "part_lt (KStr a) (KStr b) = Inr (str_lt a b)"
| "part_lt (KInt a) (KStr b) = Inl TypeError"
| "part_lt (KStr a) (KInt b) = Inl TypeError"

text \<open>
  \<open><\<close> on two lists: the first position where the elements are not equal decides
  (equality of an \<open>int\<close> and a \<open>str\<close> is just false); without one, the shorter list is
  the smaller.
\<close>

fun key_lt :: "key_part list \<Rightarrow> key_part list \<Rightarrow> py_exn + bool" where
  "key_lt [] [] = Inr False"
| "key_lt [] (y # ys) = Inr True"
| "key_lt (x # xs) [] = Inr False"
| "key_lt (x # xs) (y # ys) = (if x = y then key_lt xs ys else part_lt x y)"

text \<open>
  \<open>list.sort(key=f)\<close> first calls \<open>f\<close> on every element (an exception there escapes
  and nothing is sorted), then sorts stably, comparing keys with \<open><\<close> only. The stable
  order is produced here by insertion from the right: an element goes in front of the
  first later element whose key is not smaller than its own.
\<close>

fun insert_keyed ::
  "key_part list \<times> 'a \<Rightarrow> (key_part list \<times> 'a) list \<Rightarrow> py_exn + (key_part list \<times> 'a) list" where
  "insert_keyed x [] = Inr [x]"
| "insert_keyed x (y # ys) =
     (case key_lt (fst y) (fst x) of
        Inl e \<Rightarrow> Inl e
      | Inr True \<Rightarrow> (case insert_keyed x ys of Inl e \<Rightarrow> Inl e | Inr r \<Rightarrow> Inr (y # r))
      | Inr False \<Rightarrow> Inr (x # y # ys))"

fun sort_keyed :: "(key_part list \<times> 'a) list \<Rightarrow> py_exn + (key_part list \<times> 'a) list" where
  "sort_keyed [] = Inr []"
| "sort_keyed (x # xs) =
     (case sort_keyed xs of Inl e \<Rightarrow> Inl e | Inr ys \<Rightarrow> insert_keyed x ys)"

definition with_key :: "('a \<Rightarrow> py_exn + key_part list) \<Rightarrow> 'a \<Rightarrow> py_exn + key_part list \<times> 'a" where
  "with_key f x = (case f x of Inl e \<Rightarrow> Inl e | Inr k \<Rightarrow> Inr (k, x))"

definition list_sort :: "('a \<Rightarrow> py_exn + key_part list) \<Rightarrow> 'a list \<Rightarrow> py_exn + 'a list" where
  "list_sort f xs =
     (case comprehension (with_key f) xs of
        Inl e \<Rightarrow> Inl e
      | Inr kxs \<Rightarrow> (case sort_keyed kxs of Inl e \<Rightarrow> Inl e | Inr r \<Rightarrow> Inr (map snd r)))"

section \<open>Paths: \<open>pathlib\<close>, POSIX flavour\<close>

text \<open>
  A pure path is a root (empty, \<open>/\<close> or \<open>//\<close>) and the components after it.
\<close>

record ppath =
  root :: string
  parts :: "string list"

text \<open>\<open>str.split('/')\<close>.\<close>

fun split_sep :: "string \<Rightarrow> string list" where
  "split_sep [] = [[]]"
| "split_sep (c # cs) =
     (if c = CHR ''/'' then [] # split_sep cs
      else (case split_sep cs of [] \<Rightarrow> [[c]] | p # ps \<Rightarrow> (c # p) # ps))"

text \<open>
  The root of a POSIX path string: none without a leading slash; exactly two leading
  slashes are kept as \<open>//\<close>; one, or three and more, give \<open>/\<close>.
\<close>

definition path_root :: "string \<Rightarrow> string" where
  "path_root s =
     (if take 1 s \<noteq> ''/'' then []
      else if take 1 (drop 1 s) \<noteq> ''/'' \<or> take 1 (drop 2 s) = ''/'' then ''/''
      else ''//'')"

text \<open>\<open>Path(s)\<close>: empty components and \<open>.\<close> components are dropped, \<open>..\<close> is kept.\<close>

definition Path :: "string \<Rightarrow> ppath" where
  "Path s = \<lparr>root = path_root s, parts = filter (\<lambda>x. x \<noteq> [] \<and> x \<noteq> ''.'') (split_sep s)\<rparr>"

definition path_name :: "ppath \<Rightarrow> string" where
  "path_name p = (if parts p = [] then [] else last (parts p))"

text \<open>\<open>str.rfind\<close>: the index of the last occurrence, or \<open>-1\<close>.\<close>

definition rfind :: "char \<Rightarrow> string \<Rightarrow> int" where
  "rfind c s =
     (if c \<in> set s then int (length s) - 1 - int (length (takeWhile (\<lambda>x. x \<noteq> c) (rev s)))
      else - 1)"

text \<open>
  \<open>PurePath.suffix\<close>: from the last dot of the name on, unless that dot is the first or
  the last character of the name.
\<close>

definition name_suffix :: "string \<Rightarrow> string" where
  "name_suffix nm =
     (let i = rfind (CHR ''.'') nm
      in if 0 < i \<and> i < int (length nm) - 1 then drop (nat i) nm else [])"

definition path_suffix :: "ppath \<Rightarrow> string" where
  "path_suffix p = name_suffix (path_name p)"

text \<open>
  \<open>PurePath.with_suffix\<close>: \<open>ValueError\<close> for a malformed suffix and for a path with an
  empty name; otherwise the old suffix of the name, if any, is replaced.
\<close>

definition with_suffix :: "ppath \<Rightarrow> string \<Rightarrow> py_exn + ppath" where
  "with_suffix p sfx =
     (if CHR ''/'' \<in> set sfx \<or> (sfx \<noteq> [] \<and> hd sfx \<noteq> CHR ''.'') \<or> sfx = ''.''
      then Inl ValueError
      else let nm = path_name p
           in if nm = [] then Inl ValueError
              else let old_suffix = path_suffix p;
                       nm' = (if old_suffix = [] then nm @ sfx
                              else take (length nm - length old_suffix) nm @ sfx)
                   in Inr (p\<lparr>parts := butlast (parts p) @ [nm']\<rparr>))"

definition is_absolute :: "ppath \<Rightarrow> bool" where
  "is_absolute p = (root p \<noteq> [])"

text \<open>The operator \<open>/\<close> on two paths: an absolute right operand replaces the left one.\<close>

definition joinpath :: "ppath \<Rightarrow> ppath \<Rightarrow> ppath" where
  "joinpath a b = (if is_absolute b then b else \<lparr>root = root a, parts = parts a @ parts b\<rparr>)"

text \<open>The path that \<open>iterdir\<close> yields for an entry name.\<close>

definition child :: "ppath \<Rightarrow> string \<Rightarrow> ppath" where
  "child a nm = \<lparr>root = root a, parts = parts a @ [nm]\<rparr>"

section \<open>The world: file system, standard output, collaborators\<close>

text \<open>
  What the PDF library sees in a file: a document whose pages are copied one by one,
  each copy either giving the page or raising, or something it cannot open at all.
\<close>

datatype 'p page_slot = Page 'p | BadPage

datatype 'p content = Pdf "'p page_slot list" | Garbage

text \<open>
  A directory holds the names of its entries, in the order \<open>iterdir\<close> yields them;
  \<open>Locked\<close> is a directory that is there but that the process may not list.
\<close>

datatype 'p node = File "'p content" | Dir "string list" | Locked | Special

text \<open>
  The final write, as the operating system lets it go: it succeeds; or opening the
  file for writing fails and nothing changes; or the file is opened, which creates or
  empties it, and writing into it fails.
\<close>

datatype write_outcome = WriteOk | OpenFails | WriteFails

text \<open>
  The lines the script prints, one constructor for each \<open>print\<close> call, with the values
  it formats into the line (the size in megabytes, a floating point number, is left
  out).
\<close>

datatype msg =
    DirError ppath
  | Searching string
  | DirectoryIs ppath
  | InvalidRegex
  | NoFilesFound
  | FoundCount nat
  | ListItem nat string
  | MergingInto string
  | Processing string
  | Warning string py_exn
  | Success nat ppath
  | OutputSize
  | WriteErrorMsg

text \<open>
  \<open>resolve\<close> is \<open>Path(s).resolve()\<close>, which depends on the working directory;
  \<open>write_result\<close> is what the operating system answers when the output is opened for
  writing and written; \<open>printable\<close> says which lines standard output can take (a line
  it cannot encode makes \<open>print\<close> raise \<open>UnicodeEncodeError\<close>).

  A run starts from the parsed command line: \<open>argparse\<close> ends the process with status
  2 before \<open>main\<close> does anything when the command line does not parse, and the script
  ends it with status 1 when the PDF library is not installed. The script catches a
  failing \<open>print\<close> in one place only, the final \<open>try\<close> block, and there the model
  follows both ways; the other lines are taken as printed, and the properties of a run
  that depend on it are stated for a standard output that takes every line. In the
  same way \<open>is_file\<close> is taken to answer for every entry of a directory that was
  listed.
\<close>

record 'p world =
  fs :: "ppath \<Rightarrow> 'p node option"
  stdout :: "msg list"
  resolve :: "string \<Rightarrow> ppath"
  write_result :: "ppath \<Rightarrow> write_outcome"
  printable :: "msg \<Rightarrow> bool"

definition say :: "'p world \<Rightarrow> msg \<Rightarrow> 'p world" where
  "say w m = w\<lparr>stdout := stdout w @ [m]\<rparr>"

definition exists :: "'p world \<Rightarrow> ppath \<Rightarrow> bool" where
  "exists w p = (fs w p \<noteq> None)"

definition is_dir :: "'p world \<Rightarrow> ppath \<Rightarrow> bool" where
  "is_dir w p = (case fs w p of Some (Dir names) \<Rightarrow> True | Some Locked \<Rightarrow> True | _ \<Rightarrow> False)"

definition is_file :: "'p world \<Rightarrow> ppath \<Rightarrow> bool" where
  "is_file w p = (case fs w p of Some (File c) \<Rightarrow> True | _ \<Rightarrow> False)"

text \<open>
  \<open>Path.iterdir\<close>: the entries of a directory; \<open>PermissionError\<close> for a directory that may
  not be listed, another \<open>OSError\<close> for what is no directory.
\<close>

definition iterdir :: "'p world \<Rightarrow> ppath \<Rightarrow> py_exn + ppath list" where
  "iterdir w p =
     (case fs w p of
        Some (Dir names) \<Rightarrow> Inr (map (child p) names)
      | Some Locked \<Rightarrow> Inl PermissionError
      | _ \<Rightarrow> Inl OSError)"

text \<open>
  The regular expression engine is a collaborator: \<open>compile_ignorecase\<close> is
  \<open>re.compile(pattern, re.IGNORECASE)\<close> (\<open>None\<close> for \<open>re.error\<close>), and \<open>match_at rx s i\<close>
  says that the compiled pattern matches in the subject \<open>s\<close> starting at offset \<open>i\<close>.
  \<open>search\<close> scans the offsets of the subject from left to right.
\<close>

record 'rx regex_lib =
  compile_ignorecase :: "string \<Rightarrow> 'rx option"
  match_at :: "'rx \<Rightarrow> string \<Rightarrow> nat \<Rightarrow> bool"

definition re_search :: "'rx regex_lib \<Rightarrow> 'rx \<Rightarrow> string \<Rightarrow> bool" where
  "re_search lib rx s = list_ex (match_at lib rx s) [0..<Suc (length s)]"

text \<open>How a call ends: it returns, it calls \<open>sys.exit\<close>, or an exception escapes.\<close>

datatype 'a result = Returned 'a | SysExit nat | Uncaught py_exn

fun exit_status :: "'a result \<Rightarrow> nat" where
  "exit_status (Returned x) = 0"
| "exit_status (SysExit n) = n"
| "exit_status (Uncaught e) = 1"

section \<open>\<open>find_matching_pdfs\<close>\<close>

text \<open>The condition under which the loop appends \<open>file_path\<close> to \<open>matching_files\<close>.\<close>

definition selected :: "'rx regex_lib \<Rightarrow> 'p world \<Rightarrow> 'rx \<Rightarrow> ppath \<Rightarrow> bool" where
  "selected lib w regex file_path =
     (is_file w file_path \<and> str_lower (path_suffix file_path) = ''.pdf''
      \<and> re_search lib regex (path_name file_path))"

definition matching_files :: "'rx regex_lib \<Rightarrow> 'p world \<Rightarrow> 'rx \<Rightarrow> ppath list \<Rightarrow> ppath list" where
  "matching_files lib w regex entries = filter (selected lib w regex) entries"

definition find_matching_pdfs ::
  "'rx regex_lib \<Rightarrow> 'p world \<Rightarrow> ppath \<Rightarrow> string \<Rightarrow> 'p world \<times> ppath list result" where
  "find_matching_pdfs lib w directory pattern =
     (case compile_ignorecase lib pattern of
        None \<Rightarrow> (say w InvalidRegex, SysExit 1)
      | Some regex \<Rightarrow>
          (case iterdir w directory of
             Inl e \<Rightarrow> (w, Uncaught e)
           | Inr entries \<Rightarrow>
               (case list_sort (\<lambda>x. natural_sort_key (path_name x))
                       (matching_files lib w regex entries) of
                  Inl e \<Rightarrow> (w, Uncaught e)
                | Inr sorted_files \<Rightarrow> (w, Returned sorted_files))))"

section \<open>\<open>merge_pdfs\<close>\<close>

text \<open>\<open>PdfReader(str(pdf_file))\<close> together with \<open>len(reader.pages)\<close>.\<close>

definition PdfReader :: "'p world \<Rightarrow> ppath \<Rightarrow> py_exn + 'p page_slot list" where
  "PdfReader w pdf_file =
     (case fs w pdf_file of
        Some (File (Pdf slots)) \<Rightarrow> Inr slots
      | Some (File Garbage) \<Rightarrow> Inl PdfReadError
      | _ \<Rightarrow> Inl OSError)"

text \<open>
  The inner loop, \<open>writer.add_page(reader.pages[page_num])\<close> for each page number: it
  ends with the writer as it is when the pages run out or when a copy raises.
\<close>

fun add_pages :: "'p list \<Rightarrow> 'p page_slot list \<Rightarrow> 'p list \<times> py_exn option" where
  "add_pages writer [] = (writer, None)"
| "add_pages writer (Page p # rest) = add_pages (writer @ [p]) rest"
| "add_pages writer (BadPage # rest) = (writer, Some PdfReadError)"

text \<open>The outer loop with its \<open>try\<close>/\<open>except Exception\<close>/\<open>continue\<close>.\<close>

fun process_files :: "'p world \<Rightarrow> ppath list \<Rightarrow> 'p list \<Rightarrow> 'p world \<times> 'p list" where
  "process_files w [] writer = (w, writer)"
| "process_files w (pdf_file # rest) writer =
     (let w1 = say w (Processing (path_name pdf_file))
      in case PdfReader w1 pdf_file of
           Inl e \<Rightarrow> process_files (say w1 (Warning (path_name pdf_file) e)) rest writer
         | Inr slots \<Rightarrow>
             (case add_pages writer slots of
                (writer', None) \<Rightarrow> process_files w1 rest writer'
              | (writer', Some e) \<Rightarrow>
                  process_files (say w1 (Warning (path_name pdf_file) e)) rest writer'))"

text \<open>The numbered list of the files found, \<open>enumerate(pdf_files, 1)\<close>.\<close>

definition list_files :: "'p world \<Rightarrow> ppath list \<Rightarrow> 'p world" where
  "list_files w pdf_files =
     foldl say w (map (\<lambda>(i, f). ListItem i (path_name f)) (zip [1..<Suc (length pdf_files)] pdf_files))"

text \<open>
  The handler of the final \<open>try\<close> block: it prints the error line, whose first
  character is not ASCII, and ends the process with status 1; when that line cannot be
  printed either, the exception escapes.
\<close>

definition report_write_error :: "'p world \<Rightarrow> 'p world \<times> unit result" where
  "report_write_error w =
     (if printable w WriteErrorMsg then (say w WriteErrorMsg, SysExit 1)
      else (w, Uncaught UnicodeEncodeError))"

text \<open>
  The final \<open>try\<close> block: the file is opened for writing (which creates or empties it)
  and the writer is serialised into it; then the success line, whose first character
  is not ASCII, and the size line are printed. Any exception, of the write or of one of
  the two prints, goes to the handler; a print that fails does so after the file has
  been written. The size line needs \<open>output_path.stat()\<close> as well: \<open>printable\<close> of that
  line stands for both.
\<close>

definition write_output :: "'p world \<Rightarrow> ppath \<Rightarrow> nat \<Rightarrow> 'p list \<Rightarrow> 'p world \<times> unit result" where
  "write_output w output_path n writer =
     (case write_result w output_path of
        WriteOk \<Rightarrow>
          (let w1 = w\<lparr>fs := (fs w)(output_path \<mapsto> File (Pdf (map Page writer)))\<rparr>
           in if printable w1 (Success n output_path)
              then (let w2 = say w1 (Success n output_path)
                    in if printable w2 OutputSize then (say w2 OutputSize, Returned ())
                       else report_write_error w2)
              else report_write_error w1)
      | OpenFails \<Rightarrow> report_write_error w
      | WriteFails \<Rightarrow> report_write_error (w\<lparr>fs := (fs w)(output_path \<mapsto> File Garbage)\<rparr>))"

definition merge_pdfs :: "'p world \<Rightarrow> ppath list \<Rightarrow> ppath \<Rightarrow> 'p world \<times> unit result" where
  "merge_pdfs w pdf_files output_path =
     (if pdf_files = [] then (say w NoFilesFound, Returned ())
      else
        let w1 = list_files (say w (FoundCount (length pdf_files))) pdf_files;
            w2 = say w1 (MergingInto (path_name output_path));
            (w3, writer) = process_files w2 pdf_files []
        in write_output w3 output_path (length pdf_files) writer)"

section \<open>\<open>main\<close>\<close>

text \<open>The parsed command line: \<open>-p\<close>, \<open>-o\<close> and \<open>-d\<close>.\<close>

record args =
  arg_pattern :: string
  arg_output :: string
  arg_directory :: string

text \<open>
  The two steps on the output path: the suffix is made \<open>.pdf\<close>, and a path that is not
  absolute is put under the directory.
\<close>

definition ensure_pdf_suffix :: "ppath \<Rightarrow> py_exn + ppath" where
  "ensure_pdf_suffix output_path =
     (if str_lower (path_suffix output_path) \<noteq> ''.pdf''
      then with_suffix output_path ''.pdf'' else Inr output_path)"

definition relative_to_directory :: "ppath \<Rightarrow> ppath \<Rightarrow> ppath" where
  "relative_to_directory directory output_path =
     (if \<not> is_absolute output_path then joinpath directory output_path else output_path)"

definition resolve_output :: "ppath \<Rightarrow> ppath \<Rightarrow> py_exn + ppath" where
  "resolve_output directory output_path =
     (case ensure_pdf_suffix output_path of
        Inl e \<Rightarrow> Inl e
      | Inr output_path1 \<Rightarrow> Inr (relative_to_directory directory output_path1))"

definition main :: "'rx regex_lib \<Rightarrow> 'p world \<Rightarrow> args \<Rightarrow> 'p world \<times> unit result" where
  "main lib w a =
     (let directory = resolve w (arg_directory a);
          output_path = Path (arg_output a)
      in if \<not> exists w directory \<or> \<not> is_dir w directory
         then (say w (DirError directory), SysExit 1)
         else case resolve_output directory output_path of
                Inl e \<Rightarrow> (w, Uncaught e)
              | Inr output_path2 \<Rightarrow>
                  let w1 = say (say w (Searching (arg_pattern a))) (DirectoryIs directory)
                  in (case find_matching_pdfs lib w1 directory (arg_pattern a) of
                        (w2, Returned matching_pdfs) \<Rightarrow> merge_pdfs w2 matching_pdfs output_path2
                      | (w2, SysExit n) \<Rightarrow> (w2, SysExit n)
                      | (w2, Uncaught e) \<Rightarrow> (w2, Uncaught e)))"

section \<open>Notions used to state the properties\<close>

text \<open>
  A key as \<open>natural_sort_key\<close> builds it when nothing raises: a string, then integers
  and strings in turn, ending with a string.
\<close>

fun wf_key :: "key_part list \<Rightarrow> bool" where
  "wf_key [KStr t] = True"
| "wf_key (KStr t # KInt n # rest) = wf_key rest"
| "wf_key ks = False"

text \<open>A string that does not end, respectively start, inside a run of decimal digits.\<close>

definition ends_text :: "string \<Rightarrow> bool" where
  "ends_text s = (s = [] \<or> \<not> is_decimal (last s))"

definition starts_text :: "string \<Rightarrow> bool" where
  "starts_text s = (s = [] \<or> \<not> is_decimal (hd s))"

definition all_zeros :: "string \<Rightarrow> bool" where
  "all_zeros s = list_all (\<lambda>c. c = CHR ''0'') s"

text \<open>
  A file every page of which the library copies, and the pages of a file in their
  order.
\<close>

fun is_page :: "'p page_slot \<Rightarrow> bool" where
  "is_page (Page p) = True"
| "is_page BadPage = False"

definition readable :: "'p world \<Rightarrow> ppath \<Rightarrow> bool" where
  "readable w f = (case PdfReader w f of Inr slots \<Rightarrow> list_all is_page slots | Inl e \<Rightarrow> False)"

definition unopenable :: "'p world \<Rightarrow> ppath \<Rightarrow> bool" where
  "unopenable w f = (case PdfReader w f of Inr slots \<Rightarrow> False | Inl e \<Rightarrow> True)"

fun slot_pages :: "'p page_slot list \<Rightarrow> 'p list" where
  "slot_pages [] = []"
| "slot_pages (Page p # rest) = p # slot_pages rest"
| "slot_pages (BadPage # rest) = slot_pages rest"

definition pages_of :: "'p world \<Rightarrow> ppath \<Rightarrow> 'p list" where
  "pages_of w f = (case PdfReader w f of Inr slots \<Rightarrow> slot_pages slots | Inl e \<Rightarrow> [])"

text \<open>
  For an invocation: whether the search directory is usable, the match set (what the
  loop of \<open>find_matching_pdfs\<close> collects, empty when the run does not get there), and
  whether the run reaches the final write and the write fails.
\<close>

definition directory_ok :: "'p world \<Rightarrow> args \<Rightarrow> bool" where
  "directory_ok w a =
     (exists w (resolve w (arg_directory a)) \<and> is_dir w (resolve w (arg_directory a)))"

definition match_set :: "'rx regex_lib \<Rightarrow> 'p world \<Rightarrow> args \<Rightarrow> ppath list" where
  "match_set lib w a =
     (case compile_ignorecase lib (arg_pattern a) of
        None \<Rightarrow> []
      | Some regex \<Rightarrow>
          (case iterdir w (resolve w (arg_directory a)) of
             Inl e \<Rightarrow> []
           | Inr entries \<Rightarrow> matching_files lib w regex entries))"

definition unlistable :: "'p world \<Rightarrow> args \<Rightarrow> bool" where
  "unlistable w a =
     (case iterdir w (resolve w (arg_directory a)) of Inl e \<Rightarrow> True | Inr entries \<Rightarrow> False)"



text \<open>A name without its suffix.\<close>

definition stem :: "string \<Rightarrow> string" where
  "stem nm = take (length nm - length (name_suffix nm)) nm"

text \<open>A name in which every character that \<open>isdigit\<close> accepts is a decimal digit.\<close>

definition plain_name :: "string \<Rightarrow> bool" where
  "plain_name s = list_all (\<lambda>c. \<not> isdigit_char c \<or> is_decimal c) s"

text \<open>
  The order as the specification words it, on the names themselves: the runs of a
  name, the first one a text run and then digit runs and text runs in turn, are
  compared one by one, a digit run by its value as an integer and a text run by its
  lowered text; integers and texts are never compared with each other, and a name
  that runs out first comes first.
\<close>

definition decimal_value :: "string \<Rightarrow> int" where
  "decimal_value s = foldl (\<lambda>a c. 10 * a + digit_val c) 0 s"

fun tag_runs :: "bool \<Rightarrow> string list \<Rightarrow> (nat \<times> string \<times> int) list" where
  "tag_runs digit_run [] = []"
| "tag_runs digit_run (r # rs) =
     (if digit_run then (1, [], decimal_value r) else (0, str_lower r, 0))
     # tag_runs (\<not> digit_run) rs"

definition spec_key :: "string \<Rightarrow> (nat \<times> string \<times> int) list" where
  "spec_key text = tag_runs False (re_split_digits text)"

definition spec_less :: "string \<Rightarrow> string \<Rightarrow> bool" where
  "spec_less a b = (spec_key a < spec_key b)"

text \<open>The same tags on the elements of a key.\<close>

fun rank :: "key_part \<Rightarrow> nat \<times> string \<times> int" where
  "rank (KStr s) = (0, s, 0)"
| "rank (KInt n) = (1, [], n)"

text \<open>
  The lines of the final \<open>try\<close> block and of its handler; every other line is a
  progress line.
\<close>

fun final_line :: "msg \<Rightarrow> bool" where
  "final_line (Success n output_path) = True"
| "final_line OutputSize = True"
| "final_line WriteErrorMsg = True"
| "final_line m = False"

section \<open>Example worlds\<close>

text \<open>
  A small engine for the examples: a pattern is a literal, found without regard to
  case; the pattern \<open>[\<close> does not compile.
\<close>

definition lit_engine :: "string regex_lib" where
  "lit_engine =
     \<lparr>compile_ignorecase = (\<lambda>p. if p = ''['' then None else Some (str_lower p)),
      match_at = (\<lambda>rx s i. take (length rx) (drop i (str_lower s)) = rx)\<rparr>"

text \<open>
  The examples run in the directory \<open>/docs\<close>, given as a table from paths to what
  is there, on a standard output that takes every line.
\<close>

definition docs :: ppath where
  "docs = \<lparr>root = ''/'', parts = [''docs'']\<rparr>"

definition world_of :: "(ppath \<times> 'p node) list \<Rightarrow> write_outcome \<Rightarrow> 'p world" where
  "world_of table wr =
     \<lparr>fs = map_of table, stdout = [], resolve = (\<lambda>s. docs), write_result = (\<lambda>p. wr),
      printable = (\<lambda>m. True)\<rparr>"

text \<open>
  A standard output whose encoding has no check mark and no cross, so that it takes
  neither the success line nor the error line, and a directory that may not be listed.
\<close>

fun narrow_line :: "msg \<Rightarrow> bool" where
  "narrow_line (Success n output_path) = False"
| "narrow_line WriteErrorMsg = False"
| "narrow_line m = True"

definition narrow_stdout :: "'p world \<Rightarrow> 'p world" where
  "narrow_stdout w = w\<lparr>printable := narrow_line\<rparr>"


text \<open>Two readable files of two and three pages, listed in the order B, A.\<close>

definition two_files :: "(ppath \<times> string node) list" where
  "two_files =
     [(docs, Dir [''B.pdf'', ''A.pdf'']),
      (child docs ''A.pdf'', File (Pdf [Page ''A.p1'', Page ''A.p2''])),
      (child docs ''B.pdf'', File (Pdf [Page ''B.p1'', Page ''B.p2'', Page ''B.p3'']))]"

text \<open>A file whose second page cannot be copied, and files that cannot be opened.\<close>

definition half_broken :: "(ppath \<times> string node) list" where
  "half_broken =
     [(docs, Dir [''A.pdf'', ''B.pdf'']),
      (child docs ''A.pdf'', File (Pdf [Page ''A.p1'', BadPage, Page ''A.p3''])),
      (child docs ''B.pdf'', File (Pdf [Page ''B.p1'']))]"

definition all_broken :: "(ppath \<times> string node) list" where
  "all_broken =
     [(docs, Dir [''X.pdf'', ''Y.pdf'']),
      (child docs ''X.pdf'', File Garbage),
      (child docs ''Y.pdf'', File Garbage)]"

text \<open>
  A directory with a subdirectory, a file that is no PDF by its name, a directory
  whose name ends in \<open>.pdf\<close>, and files whose names differ in case.
\<close>

definition mixed_dir :: "(ppath \<times> string node) list" where
  "mixed_dir =
     [(docs, Dir [''L10.pdf'', ''notes.txt'', ''sub'', ''l2.PDF'', ''L4.pdf'', ''M1.pdf'']),
      (child docs ''L10.pdf'', File (Pdf [Page ''L10.p1''])),
      (child docs ''notes.txt'', File Garbage),
      (child docs ''sub'', Dir [''L3.pdf'']),
      (child (child docs ''sub'') ''L3.pdf'', File (Pdf [Page ''L3.p1''])),
      (child docs ''l2.PDF'', File (Pdf [Page ''l2.p1''])),
      (child docs ''L4.pdf'', Dir []),
      (child docs ''M1.pdf'', File (Pdf [Page ''M1.p1'']))]"

text \<open>A file name with the superscript two, U+00B2, between two digit runs.\<close>

definition superscript_name :: string where
  "superscript_name = [CHR ''1'', CHR 0xB2, CHR ''2''] @ ''.pdf''"

definition superscript_dir :: "(ppath \<times> string node) list" where
  "superscript_dir =
     [(docs, Dir [''L2.pdf'', superscript_name]),
      (child docs ''L2.pdf'', File (Pdf [Page ''L2.p1''])),
      (child docs superscript_name, File (Pdf [Page ''S.p1'']))]"

text \<open>A directory with three names of one key, listed after a name of a larger key.\<close>

definition ties_dir :: "(ppath \<times> string node) list" where
  "ties_dir =
     [(docs, Dir [''L10.pdf'', ''L2.pdf'', ''L02.pdf'', ''l2.PDF'']),
      (child docs ''L10.pdf'', File (Pdf [Page ''L10.p1''])),
      (child docs ''L2.pdf'', File (Pdf [Page ''L2.p1''])),
      (child docs ''L02.pdf'', File (Pdf [Page ''L02.p1''])),
      (child docs ''l2.PDF'', File (Pdf [Page ''l2.p1'']))]"

section \<open>The sort key\<close>

lemma re_split_no_digit:
  "dropWhile (\<lambda>c. \<not> is_decimal c) s = [] \<Longrightarrow> re_split_digits s = [s]"
  by (subst re_split_digits.simps) (simp add: takeWhile_eq_all_conv)

lemma re_split_digit:
  "dropWhile (\<lambda>c. \<not> is_decimal c) s \<noteq> [] \<Longrightarrow>
   re_split_digits s =
     takeWhile (\<lambda>c. \<not> is_decimal c) s
     # takeWhile is_decimal (dropWhile (\<lambda>c. \<not> is_decimal c) s)
     # re_split_digits (dropWhile is_decimal (dropWhile (\<lambda>c. \<not> is_decimal c) s))"
  by (subst re_split_digits.simps) (simp add: Let_def)

lemma convert_text:
  assumes "list_all (\<lambda>c. \<not> is_decimal c) t" and "convert t = Inr k"
  shows "\<exists>u. k = KStr u"
proof (cases "str_isdigit t")
  case True
  then have "t \<noteq> []" by (simp add: str_isdigit_def)
  with assms(1) have "\<not> list_all is_decimal t" by (cases t) auto
  then have "convert t = Inl ValueError" using True
    by (simp add: convert_def int_of_digits_def)
  with assms(2) show ?thesis by simp
next
  case False
  with assms(2) show ?thesis by (auto simp: convert_def)
qed

lemma convert_digits:
  assumes "d \<noteq> []" and "list_all is_decimal d"
  shows "\<exists>n. convert d = Inr (KInt n)"
proof -
  have "list_all isdigit_char d" using assms(2)
    by (induction d) (auto simp: isdigit_char_def)
  then show ?thesis using assms
    by (simp add: convert_def str_isdigit_def int_of_digits_def)
qed

text \<open>Whenever \<open>natural_sort_key\<close> returns, the key alternates strings and integers.\<close>

lemma natural_sort_key_wf: "natural_sort_key s = Inr k \<Longrightarrow> wf_key k"
  unfolding natural_sort_key_def
proof (induction s arbitrary: k rule: re_split_digits.induct)
  case (1 s)
  let ?nd = "\<lambda>c. \<not> is_decimal c"
  let ?pre = "takeWhile ?nd s" and ?rest = "dropWhile ?nd s"
  have pre: "list_all ?nd ?pre" by (auto simp: list_all_iff dest: set_takeWhileD)
  show ?case
  proof (cases "?rest = []")
    case True
    then have s: "re_split_digits s = [s]" by (rule re_split_no_digit)
    from True have "?pre = s" by (simp add: takeWhile_eq_all_conv)
    with pre have "list_all ?nd s" by simp
    with "1.prems" s show ?thesis
      by (auto split: sum.splits dest!: convert_text)
  next
    case False
    let ?dig = "takeWhile is_decimal ?rest" and ?tail = "dropWhile is_decimal ?rest"
    have s: "re_split_digits s = ?pre # ?dig # re_split_digits ?tail"
      using False by (rule re_split_digit)
    have "is_decimal (hd ?rest)" using hd_dropWhile [OF False] by simp
    then have dig_ne: "?dig \<noteq> []" using False by (cases ?rest) auto
    have dig: "list_all is_decimal ?dig" by (auto simp: list_all_iff dest: set_takeWhileD)
    from convert_digits [OF dig_ne dig] obtain n where n: "convert ?dig = Inr (KInt n)" ..
    from "1.prems" s n obtain u k' where
      u: "convert ?pre = Inr u" and k': "comprehension convert (re_split_digits ?tail) = Inr k'"
      and k: "k = u # KInt n # k'"
      by (auto split: sum.splits)
    from convert_text [OF pre u] obtain t where "u = KStr t" ..
    moreover have "wf_key k'" using "1.IH" [OF refl refl False k'] .
    ultimately show ?thesis using k by simp
  qed
qed

lemma key_lt_refl: "key_lt k k = Inr False"
  by (induction k) auto

text \<open>Two such keys are always comparable: no position holds an integer against a string.\<close>

lemma key_lt_wf: "wf_key a \<Longrightarrow> wf_key b \<Longrightarrow> \<exists>r. key_lt a b = Inr r"
proof (induction a arbitrary: b rule: wf_key.induct)
  case (1 t)
  then show ?case by (cases b rule: wf_key.cases) auto
next
  case (2 t n rest)
  then show ?case by (cases b rule: wf_key.cases) auto
qed auto

section \<open>The sort\<close>

lemma insert_keyed_wf:
  assumes "wf_key (fst x)" and "\<forall>y\<in>set ys. wf_key (fst y)"
  shows "\<exists>r. insert_keyed x ys = Inr r \<and> set r = insert x (set ys)"
  using assms(2)
proof (induction ys)
  case Nil
  show ?case by simp
next
  case (Cons y ys)
  from Cons.prems have "wf_key (fst y)" by simp
  from key_lt_wf [OF this assms(1)] obtain b where b: "key_lt (fst y) (fst x) = Inr b" ..
  from Cons obtain r where r: "insert_keyed x ys = Inr r" "set r = insert x (set ys)" by auto
  show ?case using b r by (cases b) auto
qed

lemma sort_keyed_wf:
  "\<forall>y\<in>set kxs. wf_key (fst y) \<Longrightarrow> \<exists>r. sort_keyed kxs = Inr r \<and> set r = set kxs"
proof (induction kxs)
  case Nil
  show ?case by simp
next
  case (Cons x xs)
  then obtain ys where ys: "sort_keyed xs = Inr ys" "set ys = set xs" by auto
  with Cons.prems have "wf_key (fst x)" "\<forall>y\<in>set ys. wf_key (fst y)" by auto
  from insert_keyed_wf [OF this] ys show ?case by auto
qed

lemma comprehension_Inr_iff:
  "(\<exists>ys. comprehension f xs = Inr ys) \<longleftrightarrow> (\<forall>x\<in>set xs. \<exists>y. f x = Inr y)"
  by (induction xs) (auto split: sum.splits)

lemma comprehension_Inl:
  "comprehension f xs = Inl e \<Longrightarrow> \<exists>x\<in>set xs. f x = Inl e"
  by (induction xs) (auto split: sum.splits)

lemma comprehension_append:
  "comprehension f (xs @ ys) =
     (case comprehension f xs of
        Inl e \<Rightarrow> Inl e
      | Inr a \<Rightarrow> (case comprehension f ys of Inl e \<Rightarrow> Inl e | Inr b \<Rightarrow> Inr (a @ b)))"
  by (induction xs) (auto split: sum.splits)

lemma comprehension_cong:
  "(\<And>x. x \<in> set xs \<Longrightarrow> f x = g x) \<Longrightarrow> comprehension f xs = comprehension g xs"
  by (induction xs) (auto split: sum.splits)

lemma comprehension_map: "comprehension f (map g xs) = comprehension (\<lambda>x. f (g x)) xs"
  by (induction xs) (auto split: sum.splits)

lemma with_key_Inr: "with_key f x = Inr kx \<longleftrightarrow> (f x = Inr (fst kx) \<and> snd kx = x)"
  by (cases kx) (auto simp: with_key_def split: sum.splits)

lemma decorated_snd:
  "comprehension (with_key f) xs = Inr kxs \<Longrightarrow> map snd kxs = xs"
  by (induction xs arbitrary: kxs) (auto split: sum.splits simp: with_key_Inr)

lemma decorated_fst:
  "comprehension (with_key f) xs = Inr kxs \<Longrightarrow> \<forall>kx\<in>set kxs. f (snd kx) = Inr (fst kx)"
  by (induction xs arbitrary: kxs) (auto split: sum.splits simp: with_key_Inr)

text \<open>Stability: the elements with a given key keep their order.\<close>

lemma insert_keyed_stable:
  "insert_keyed x ys = Inr r \<Longrightarrow>
   filter (\<lambda>y. fst y = k) r = filter (\<lambda>y. fst y = k) (x # ys)"
proof (induction ys arbitrary: r)
  case Nil
  then show ?case by auto
next
  case (Cons y ys)
  show ?case
  proof (cases "key_lt (fst y) (fst x)")
    case (Inl e)
    with Cons.prems show ?thesis by simp
  next
    case (Inr b)
    show ?thesis
    proof (cases b)
      case False
      with Inr Cons.prems show ?thesis by auto
    next
      case True
      with Inr have ne: "fst y \<noteq> fst x" using key_lt_refl [of "fst x"] by auto
      from True Inr Cons.prems obtain r' where r': "insert_keyed x ys = Inr r'" "r = y # r'"
        by (auto split: sum.splits)
      from Cons.IH [OF r'(1)] r'(2) ne show ?thesis by auto
    qed
  qed
qed

lemma sort_keyed_stable:
  "sort_keyed kxs = Inr r \<Longrightarrow> filter (\<lambda>y. fst y = k) r = filter (\<lambda>y. fst y = k) kxs"
proof (induction kxs arbitrary: r)
  case Nil
  then show ?case by simp
next
  case (Cons x xs)
  then obtain ys where ys: "sort_keyed xs = Inr ys" "insert_keyed x ys = Inr r"
    by (auto split: sum.splits)
  from insert_keyed_stable [OF ys(2)] Cons.IH [OF ys(1)] show ?case by simp
qed

lemma insert_keyed_set: "insert_keyed x ys = Inr r \<Longrightarrow> set r = insert x (set ys)"
proof (induction ys arbitrary: r)
  case Nil
  then show ?case by auto
next
  case (Cons y ys)
  show ?case
  proof (cases "key_lt (fst y) (fst x)")
    case (Inl e)
    with Cons.prems show ?thesis by simp
  next
    case (Inr b)
    show ?thesis
    proof (cases b)
      case False
      with Inr Cons.prems show ?thesis by auto
    next
      case True
      from True Inr Cons.prems obtain r' where r': "insert_keyed x ys = Inr r'" "r = y # r'"
        by (auto split: sum.splits)
      from Cons.IH [OF r'(1)] r'(2) show ?thesis by auto
    qed
  qed
qed

lemma sort_keyed_set: "sort_keyed kxs = Inr r \<Longrightarrow> set r = set kxs"
proof (induction kxs arbitrary: r)
  case Nil
  then show ?case by simp
next
  case (Cons x xs)
  then obtain ys where ys: "sort_keyed xs = Inr ys" "insert_keyed x ys = Inr r"
    by (auto split: sum.splits)
  from insert_keyed_set [OF ys(2)] Cons.IH [OF ys(1)] show ?case by simp
qed

lemma list_sort_defined:
  assumes "\<forall>x\<in>set xs. \<exists>k. f x = Inr k \<and> wf_key k"
  shows "\<exists>r. list_sort f xs = Inr r"
proof -
  from assms have "\<forall>x\<in>set xs. \<exists>y. with_key f x = Inr y"
    by (auto simp: with_key_def)
  then obtain kxs where kxs: "comprehension (with_key f) xs = Inr kxs"
    using comprehension_Inr_iff [of "with_key f" xs] by blast
  have "\<forall>kx\<in>set kxs. wf_key (fst kx)"
  proof
    fix kx assume kx: "kx \<in> set kxs"
    with decorated_fst [OF kxs] have fk: "f (snd kx) = Inr (fst kx)" by blast
    from kx have "snd kx \<in> set (map snd kxs)" by simp
    then have "snd kx \<in> set xs" using decorated_snd [OF kxs] by simp
    with assms fk show "wf_key (fst kx)" by auto
  qed
  from sort_keyed_wf [OF this] obtain r where "sort_keyed kxs = Inr r" by blast
  with kxs show ?thesis by (simp add: list_sort_def)
qed

lemma list_sort_raises:
  assumes "x \<in> set xs" and "f x = Inl e"
  shows "\<exists>e'. list_sort f xs = Inl e'"
proof -
  have "with_key f x = Inl e" using assms(2) by (simp add: with_key_def)
  with assms(1) have "\<not> (\<forall>x\<in>set xs. \<exists>y. with_key f x = Inr y)" by force
  then have "\<not> (\<exists>ys. comprehension (with_key f) xs = Inr ys)"
    using comprehension_Inr_iff [of "with_key f" xs] by blast
  then obtain e' where "comprehension (with_key f) xs = Inl e'"
    by (cases "comprehension (with_key f) xs") auto
  then show ?thesis by (simp add: list_sort_def)
qed

lemma list_sort_set: "list_sort f xs = Inr r \<Longrightarrow> set r = set xs"
proof -
  assume a: "list_sort f xs = Inr r"
  then obtain kxs s where kxs: "comprehension (with_key f) xs = Inr kxs"
    and s: "sort_keyed kxs = Inr s" and r: "r = map snd s"
    by (auto simp: list_sort_def split: sum.splits)
  have "set r = snd ` set s" using r by simp
  also have "\<dots> = snd ` set kxs" using sort_keyed_set [OF s] by simp
  also have "\<dots> = set (map snd kxs)" by simp
  also have "\<dots> = set xs" using decorated_snd [OF kxs] by simp
  finally show ?thesis .
qed

lemma list_sort_stable:
  assumes "list_sort f xs = Inr r"
  shows "filter (\<lambda>x. f x = Inr k) r = filter (\<lambda>x. f x = Inr k) xs"
proof -
  from assms obtain kxs s where kxs: "comprehension (with_key f) xs = Inr kxs"
    and s: "sort_keyed kxs = Inr s" and r: "r = map snd s"
    by (auto simp: list_sort_def split: sum.splits)
  have dec': "\<And>kx. kx \<in> set kxs \<Longrightarrow> f (snd kx) = Inr (fst kx)"
    using decorated_fst [OF kxs] by simp
  then have dec: "\<And>kx. kx \<in> set s \<Longrightarrow> f (snd kx) = Inr (fst kx)"
    using sort_keyed_set [OF s] by simp
  have "filter (\<lambda>x. f x = Inr k) r = map snd (filter (\<lambda>kx. f (snd kx) = Inr k) s)"
    using r by (simp add: filter_map comp_def)
  also have "filter (\<lambda>kx. f (snd kx) = Inr k) s = filter (\<lambda>kx. fst kx = k) s"
    by (rule filter_cong) (auto simp: dec)
  also have "\<dots> = filter (\<lambda>kx. fst kx = k) kxs" by (rule sort_keyed_stable [OF s])
  also have "\<dots> = filter (\<lambda>kx. f (snd kx) = Inr k) kxs"
    by (rule filter_cong) (auto simp: dec')
  also have "map snd \<dots> = filter (\<lambda>x. f x = Inr k) (map snd kxs)"
    by (simp add: filter_map comp_def)
  also have "map snd kxs = xs" by (rule decorated_snd [OF kxs])
  finally show ?thesis .
qed

section \<open>The merge\<close>

text \<open>Printing changes nothing but the standard output.\<close>

lemma say_simps:
  "fs (say w m) = fs w"
  "write_result (say w m) = write_result w"
  "resolve (say w m) = resolve w"
  "stdout (say w m) = stdout w @ [m]"
  "printable (say w m) = printable w"
  by (simp_all add: say_def)

lemma PdfReader_say: "PdfReader (say w m) f = PdfReader w f"
  by (simp add: PdfReader_def say_simps)

lemma foldl_say:
  "fs (foldl say w ms) = fs w \<and> write_result (foldl say w ms) = write_result w
   \<and> stdout (foldl say w ms) = stdout w @ ms"
  by (induction ms arbitrary: w) (simp_all add: say_simps)

lemma list_files_simps:
  "fs (list_files w fl) = fs w"
  "write_result (list_files w fl) = write_result w"
  by (simp_all add: list_files_def foldl_say)

lemma foldl_say_printable: "printable (foldl say w ms) = printable w"
  by (induction ms arbitrary: w) (simp_all add: say_simps)

lemma list_files_printable: "printable (list_files w fl) = printable w"
  by (simp add: list_files_def foldl_say_printable)

lemma PdfReader_cong: "fs w = fs w' \<Longrightarrow> PdfReader w f = PdfReader w' f"
  by (simp add: PdfReader_def)

lemma add_pages_good:
  "list_all is_page slots \<Longrightarrow> add_pages writer slots = (writer @ slot_pages slots, None)"
  by (induction writer slots rule: add_pages.induct) auto

lemma add_pages_prefix: "\<exists>ps. fst (add_pages writer slots) = writer @ ps"
  by (induction writer slots rule: add_pages.induct) auto

text \<open>The outer loop leaves the file system and the write answers alone.\<close>

lemma process_files_frame:
  "fs (fst (process_files w fl writer)) = fs w
   \<and> write_result (fst (process_files w fl writer)) = write_result w"
proof (induction fl arbitrary: w writer)
  case Nil
  show ?case by simp
next
  case (Cons f fl)
  show ?case
    by (simp add: Let_def Cons say_simps split: sum.splits prod.splits option.splits)
qed

text \<open>When every file is readable, the writer ends with all pages in order.\<close>

lemma process_files_readable:
  assumes "\<forall>f\<in>set fl. readable w0 f" and "fs w = fs w0"
  shows "snd (process_files w fl writer) = writer @ concat (map (pages_of w0) fl)"
  using assms
proof (induction fl arbitrary: w writer)
  case Nil
  show ?case by simp
next
  case (Cons f fl)
  let ?w1 = "say w (Processing (path_name f))"
  have rd: "PdfReader ?w1 f = PdfReader w0 f"
    using Cons.prems(2) by (simp add: PdfReader_def say_simps)
  from Cons.prems(1) obtain slots where sl: "PdfReader w0 f = Inr slots" "list_all is_page slots"
    by (auto simp: readable_def split: sum.splits)
  have pg: "pages_of w0 f = slot_pages slots" using sl by (simp add: pages_of_def)
  have fs1: "fs ?w1 = fs w0" using Cons.prems(2) by (simp add: say_simps)
  have "snd (process_files w (f # fl) writer)
        = snd (process_files ?w1 fl (writer @ slot_pages slots))"
    using rd sl by (simp add: Let_def add_pages_good)
  also have "\<dots> = (writer @ slot_pages slots) @ concat (map (pages_of w0) fl)"
    using Cons.IH [OF _ fs1] Cons.prems(1) by simp
  finally show ?case using pg by simp
qed

text \<open>A file that cannot be opened leaves the writer as it was.\<close>

lemma process_files_unopenable:
  assumes "\<forall>f\<in>set fl. unopenable w0 f" and "fs w = fs w0"
  shows "snd (process_files w fl writer) = writer"
  using assms
proof (induction fl arbitrary: w writer)
  case Nil
  show ?case by simp
next
  case (Cons f fl)
  let ?w1 = "say w (Processing (path_name f))"
  have rd: "PdfReader ?w1 f = PdfReader w0 f"
    using Cons.prems(2) by (simp add: PdfReader_def say_simps)
  from Cons.prems(1) obtain e where e: "PdfReader w0 f = Inl e"
    by (auto simp: unopenable_def split: sum.splits)
  have "snd (process_files w (f # fl) writer)
        = snd (process_files (say ?w1 (Warning (path_name f) e)) fl writer)"
    using rd e by (simp add: Let_def)
  also have "\<dots> = writer"
    using Cons.IH [of "say ?w1 (Warning (path_name f) e)"] Cons.prems by (simp add: say_simps)
  finally show ?case .
qed

lemma process_files_stdout: "\<exists>ms. stdout (fst (process_files w fl writer)) = stdout w @ ms"
proof (induction fl arbitrary: w writer)
  case Nil
  show ?case by simp
next
  case (Cons f fl)
  let ?w1 = "say w (Processing (path_name f))"
  show ?case
  proof (cases "PdfReader ?w1 f")
    case (Inl e)
    from Cons [of "say ?w1 (Warning (path_name f) e)" writer] Inl show ?thesis
      by (auto simp: Let_def say_simps)
  next
    case (Inr slots)
    obtain wr' r where a: "add_pages writer slots = (wr', r)" by (cases "add_pages writer slots")
    show ?thesis
    proof (cases r)
      case None
      from Cons [of ?w1 wr'] Inr a None show ?thesis by (auto simp: Let_def say_simps)
    next
      case (Some e)
      from Cons [of "say ?w1 (Warning (path_name f) e)" wr'] Inr a Some show ?thesis
        by (auto simp: Let_def say_simps)
    qed
  qed
qed

lemma process_files_printable: "printable (fst (process_files w fl writer)) = printable w"
proof (induction fl arbitrary: w writer)
  case Nil
  show ?case by simp
next
  case (Cons f fl)
  show ?case
    by (simp add: Let_def Cons say_simps split: sum.splits prod.splits option.splits)
qed

lemma merge_pdfs_nonempty:
  assumes "pdf_files \<noteq> []"
  shows "\<exists>w3. merge_pdfs w pdf_files output_path
         = write_output w3 output_path (length pdf_files)
             (snd (process_files (say (list_files (say w (FoundCount (length pdf_files))) pdf_files)
                                    (MergingInto (path_name output_path))) pdf_files []))
       \<and> fs w3 = fs w \<and> write_result w3 = write_result w \<and> (\<exists>ms. stdout w3 = stdout w @ ms)
       \<and> printable w3 = printable w"
proof -
  let ?w2 = "say (list_files (say w (FoundCount (length pdf_files))) pdf_files)
               (MergingInto (path_name output_path))"
  let ?w3 = "fst (process_files ?w2 pdf_files [])"
  have "merge_pdfs w pdf_files output_path
        = write_output ?w3 output_path (length pdf_files) (snd (process_files ?w2 pdf_files []))"
    using assms by (simp add: merge_pdfs_def Let_def split_beta)
  moreover have "fs ?w3 = fs w \<and> write_result ?w3 = write_result w"
    by (simp add: process_files_frame say_simps list_files_simps)
  moreover have "\<exists>ms. stdout ?w3 = stdout w @ ms"
  proof -
    obtain m1 where "stdout ?w3 = stdout ?w2 @ m1" using process_files_stdout by blast
    then show ?thesis by (simp add: say_simps list_files_def foldl_say)
  qed
  moreover have "printable ?w3 = printable w"
    by (simp add: process_files_printable say_simps list_files_printable)
  ultimately show ?thesis by blast
qed

text \<open>
  A write that succeeds leaves the file written, whatever becomes of the two lines
  printed after it.
\<close>

lemma write_output_fs:
  "write_result w output_path = WriteOk \<Longrightarrow>
   fs (fst (write_output w output_path n writer))
     = (fs w)(output_path \<mapsto> File (Pdf (map Page writer)))"
  by (simp add: write_output_def report_write_error_def say_simps Let_def)

lemma write_output_ok:
  "write_result w output_path = WriteOk \<Longrightarrow>
   printable w (Success n output_path) \<Longrightarrow> printable w OutputSize \<Longrightarrow>
   snd (write_output w output_path n writer) = Returned ()
   \<and> stdout (fst (write_output w output_path n writer))
       = stdout w @ [Success n output_path, OutputSize]"
  by (simp add: write_output_def say_simps Let_def)

lemma report_write_error_status: "exit_status (snd (report_write_error w)) = 1"
  by (simp add: report_write_error_def)

lemma report_write_error_fs: "fs (fst (report_write_error w)) = fs w"
  by (simp add: report_write_error_def say_simps)

lemma write_output_status:
  "exit_status (snd (write_output w output_path n writer))
   = (if write_result w output_path = WriteOk \<and> printable w (Success n output_path)
         \<and> printable w OutputSize
      then 0 else 1)"
  by (cases "write_result w output_path")
     (simp_all add: write_output_def report_write_error_status say_simps Let_def)

lemma write_output_open_fails:
  "write_result w output_path = OpenFails \<Longrightarrow>
   fs (fst (write_output w output_path n writer)) = fs w"
  by (simp add: write_output_def report_write_error_fs)

text \<open>
  C2: when every candidate is readable, the file written holds the pages of the
  candidates, file after file in the order of the list, each file's pages in their own
  order.
\<close>

theorem merge_pdfs_concatenates_pages:
  assumes "\<forall>f\<in>set pdf_files. readable w f"
    and "pdf_files \<noteq> []"
    and "write_result w output_path = WriteOk"
  shows "fs (fst (merge_pdfs w pdf_files output_path)) output_path
         = Some (File (Pdf (map Page (concat (map (pages_of w) pdf_files)))))"
proof -
  let ?w2 = "say (list_files (say w (FoundCount (length pdf_files))) pdf_files)
               (MergingInto (path_name output_path))"
  from merge_pdfs_nonempty [OF assms(2), of w output_path] obtain w3 where
    m: "merge_pdfs w pdf_files output_path
        = write_output w3 output_path (length pdf_files) (snd (process_files ?w2 pdf_files []))"
    and f: "fs w3 = fs w" and wr: "write_result w3 = write_result w" by blast
  have "fs ?w2 = fs w" by (simp add: say_simps list_files_simps)
  from process_files_readable [OF assms(1) this]
  have p: "snd (process_files ?w2 pdf_files []) = concat (map (pages_of w) pdf_files)" by simp
  from wr assms(3) have "write_result w3 output_path = WriteOk" by simp
  from write_output_fs [OF this] m p f show ?thesis by simp
qed

theorem merge_pdfs_concatenates_pages_witness:
  "fs (fst (merge_pdfs (world_of two_files WriteOk) [child docs ''A.pdf'', child docs ''B.pdf'']
              (child docs ''out.pdf''))) (child docs ''out.pdf'')
   = Some (File (Pdf [Page ''A.p1'', Page ''A.p2'', Page ''B.p1'', Page ''B.p2'', Page ''B.p3'']))"
proof -
  let ?w = "world_of two_files WriteOk"
  let ?fl = "[child docs ''A.pdf'', child docs ''B.pdf'']"
  have h1: "\<forall>f\<in>set ?fl. readable ?w f" by code_simp
  have h2: "?fl \<noteq> []" by simp
  have h3: "write_result ?w (child docs ''out.pdf'') = WriteOk" by (simp add: world_of_def)
  have e: "concat (map (pages_of ?w) ?fl) = [''A.p1'', ''A.p2'', ''B.p1'', ''B.p2'', ''B.p3'']"
    by code_simp
  from merge_pdfs_concatenates_pages [OF h1 h2 h3] show ?thesis unfolding e by simp
qed

text \<open>
  C5: a file whose second page cannot be copied is reported and the loop goes on, but
  the page copied before the failure stays in the writer: the output holds a page of
  the file that failed, before the page of the valid file.
\<close>

theorem failed_file_leaves_pages:
  "fs (fst (merge_pdfs (world_of half_broken WriteOk)
              [child docs ''A.pdf'', child docs ''B.pdf''] (child docs ''out.pdf'')))
      (child docs ''out.pdf'')
   = Some (File (Pdf [Page ''A.p1'', Page ''B.p1'']))
   \<and> stdout (fst (merge_pdfs (world_of half_broken WriteOk)
              [child docs ''A.pdf'', child docs ''B.pdf''] (child docs ''out.pdf'')))
   = [FoundCount 2, ListItem 1 ''A.pdf'', ListItem 2 ''B.pdf'', MergingInto ''out.pdf'',
      Processing ''A.pdf'', Warning ''A.pdf'' PdfReadError, Processing ''B.pdf'',
      Success 2 (child docs ''out.pdf''), OutputSize]"
  by code_simp

text \<open>
  C9, as stated, fails when the final write fails: the list is not empty, nothing is
  written and the status is 1.
\<close>

theorem nonempty_list_write_failure:
  "exit_status (snd (merge_pdfs (world_of two_files OpenFails) [child docs ''A.pdf'']
                       (child docs ''out.pdf''))) = 1
   \<and> fs (fst (merge_pdfs (world_of two_files OpenFails) [child docs ''A.pdf'']
                       (child docs ''out.pdf''))) (child docs ''out.pdf'') = None"
  by code_simp

text \<open>
  C9, amended: for a non-empty candidate list whose progress lines are printed, the
  final write is attempted whatever happened to the candidates. The status is 0
  exactly when the write succeeds and the two lines printed after it, the success
  line and the size line, can be printed, and then the success line carries the
  number of candidates, not the number of files merged; otherwise the status is 1.
  Whenever the write succeeds the output file is written, also when a line after it
  cannot be printed, and when no candidate could be opened the document written has
  no page.
\<close>

theorem merge_pdfs_writes_despite_failures:
  assumes "pdf_files \<noteq> []"
    and "\<forall>m. printable w m \<or> final_line m"
  shows "exit_status (snd (merge_pdfs w pdf_files output_path))
           = (if write_result w output_path = WriteOk
                 \<and> printable w (Success (length pdf_files) output_path)
                 \<and> printable w OutputSize
              then 0 else 1)
         \<and> (write_result w output_path = WriteOk \<longrightarrow>
              (\<exists>pages. fs (fst (merge_pdfs w pdf_files output_path)) output_path
                          = Some (File (Pdf (map Page pages))))
              \<and> ((\<forall>f\<in>set pdf_files. unopenable w f) \<longrightarrow>
                   fs (fst (merge_pdfs w pdf_files output_path)) output_path
                   = Some (File (Pdf []))))
         \<and> (exit_status (snd (merge_pdfs w pdf_files output_path)) = 0 \<longrightarrow>
              Success (length pdf_files) output_path
                \<in> set (stdout (fst (merge_pdfs w pdf_files output_path))))"
proof -
  let ?n = "length pdf_files"
  let ?w2 = "say (list_files (say w (FoundCount ?n)) pdf_files)
               (MergingInto (path_name output_path))"
  let ?writer = "snd (process_files ?w2 pdf_files [])"
  from merge_pdfs_nonempty [OF assms(1), of w output_path] obtain w3 where
    m: "merge_pdfs w pdf_files output_path = write_output w3 output_path ?n ?writer"
    and wr: "write_result w3 = write_result w" and pr: "printable w3 = printable w" by blast
  have fs2: "fs ?w2 = fs w" by (simp add: say_simps list_files_simps)
  have st: "exit_status (snd (merge_pdfs w pdf_files output_path))
           = (if write_result w output_path = WriteOk
                 \<and> printable w (Success ?n output_path) \<and> printable w OutputSize
              then 0 else 1)"
    unfolding m write_output_status wr pr ..
  have written: "write_result w output_path = WriteOk \<longrightarrow>
              (\<exists>pages. fs (fst (merge_pdfs w pdf_files output_path)) output_path
                          = Some (File (Pdf (map Page pages))))
              \<and> ((\<forall>f\<in>set pdf_files. unopenable w f) \<longrightarrow>
                   fs (fst (merge_pdfs w pdf_files output_path)) output_path
                   = Some (File (Pdf [])))"
  proof
    assume "write_result w output_path = WriteOk"
    with wr have ok: "write_result w3 output_path = WriteOk" by simp
    note f = write_output_fs [OF ok, of ?n ?writer]
    have a: "\<exists>pages. fs (fst (merge_pdfs w pdf_files output_path)) output_path
                          = Some (File (Pdf (map Page pages)))"
      using m f by auto
    have b: "(\<forall>f\<in>set pdf_files. unopenable w f) \<longrightarrow>
                   fs (fst (merge_pdfs w pdf_files output_path)) output_path
                   = Some (File (Pdf []))"
    proof
      assume "\<forall>f\<in>set pdf_files. unopenable w f"
      from process_files_unopenable [OF this fs2] have "?writer = []" by simp
      with m f show "fs (fst (merge_pdfs w pdf_files output_path)) output_path
                   = Some (File (Pdf []))" by simp
    qed
    from a b show "(\<exists>pages. fs (fst (merge_pdfs w pdf_files output_path)) output_path
                          = Some (File (Pdf (map Page pages))))
              \<and> ((\<forall>f\<in>set pdf_files. unopenable w f) \<longrightarrow>
                   fs (fst (merge_pdfs w pdf_files output_path)) output_path
                   = Some (File (Pdf [])))" ..
  qed
  have said: "exit_status (snd (merge_pdfs w pdf_files output_path)) = 0 \<longrightarrow>
              Success ?n output_path \<in> set (stdout (fst (merge_pdfs w pdf_files output_path)))"
  proof
    assume "exit_status (snd (merge_pdfs w pdf_files output_path)) = 0"
    with st have c: "write_result w output_path = WriteOk"
      "printable w (Success ?n output_path)" "printable w OutputSize"
      by (auto split: if_splits)
    with wr pr have "write_result w3 output_path = WriteOk"
      "printable w3 (Success ?n output_path)" "printable w3 OutputSize" by simp_all
    from write_output_ok [OF this, of ?writer] m
    show "Success ?n output_path \<in> set (stdout (fst (merge_pdfs w pdf_files output_path)))"
      by simp
  qed
  from st written said show ?thesis by blast
qed

theorem merge_pdfs_writes_despite_failures_witness:
  "exit_status (snd (merge_pdfs (world_of all_broken WriteOk)
                       [child docs ''X.pdf'', child docs ''Y.pdf''] (child docs ''out.pdf''))) = 0
   \<and> Success (length [child docs ''X.pdf'', child docs ''Y.pdf'']) (child docs ''out.pdf'')
        \<in> set (stdout (fst (merge_pdfs (world_of all_broken WriteOk)
                       [child docs ''X.pdf'', child docs ''Y.pdf''] (child docs ''out.pdf''))))
   \<and> fs (fst (merge_pdfs (world_of all_broken WriteOk)
                       [child docs ''X.pdf'', child docs ''Y.pdf''] (child docs ''out.pdf'')))
         (child docs ''out.pdf'') = Some (File (Pdf []))
   \<and> exit_status (snd (merge_pdfs (narrow_stdout (world_of all_broken WriteOk))
                       [child docs ''X.pdf'', child docs ''Y.pdf''] (child docs ''out.pdf''))) = 1
   \<and> fs (fst (merge_pdfs (narrow_stdout (world_of all_broken WriteOk))
                       [child docs ''X.pdf'', child docs ''Y.pdf''] (child docs ''out.pdf'')))
         (child docs ''out.pdf'') = Some (File (Pdf []))"
proof -
  let ?w = "world_of all_broken WriteOk"
  let ?v = "narrow_stdout (world_of all_broken WriteOk)"
  let ?fl = "[child docs ''X.pdf'', child docs ''Y.pdf'']"
  let ?out = "child docs ''out.pdf''"
  have h1: "?fl \<noteq> []" by simp
  have p: "\<forall>m. printable ?w m \<or> final_line m" by (simp add: world_of_def)
  have q: "\<forall>m. printable ?v m \<or> final_line m"
  proof
    fix m show "printable ?v m \<or> final_line m"
      by (cases m) (simp_all add: narrow_stdout_def)
  qed
  have pw: "printable ?w (Success (length ?fl) ?out) \<and> printable ?w OutputSize"
    by (simp add: world_of_def)
  have pv: "\<not> printable ?v (Success (length ?fl) ?out)" by (simp add: narrow_stdout_def)
  have h2: "write_result ?w ?out = WriteOk" "write_result ?v ?out = WriteOk"
    by (simp_all add: world_of_def narrow_stdout_def)
  have h3: "\<forall>f\<in>set ?fl. unopenable ?w f" "\<forall>f\<in>set ?fl. unopenable ?v f" by code_simp+
  from merge_pdfs_writes_despite_failures [OF h1 p] merge_pdfs_writes_despite_failures [OF h1 q]
       pw pv h2 h3
  show ?thesis by simp
qed

section \<open>The driver\<close>

lemma say_queries:
  "exists (say w m) p = exists w p"
  "is_dir (say w m) p = is_dir w p"
  "is_file (say w m) p = is_file w p"
  "iterdir (say w m) p = iterdir w p"
  by (simp_all add: exists_def is_dir_def is_file_def iterdir_def say_simps)

lemma selected_say: "selected lib (say w m) rx = selected lib w rx"
  by (rule ext) (simp add: selected_def say_queries)

lemma matching_files_say: "matching_files lib (say w m) rx es = matching_files lib w rx es"
  by (simp add: matching_files_def selected_say)


lemma find_matching_pdfs_regex:
  "compile_ignorecase lib pattern = Some rx \<Longrightarrow> iterdir w directory = Inr es \<Longrightarrow>
   find_matching_pdfs lib w directory pattern =
     (case list_sort (\<lambda>x. natural_sort_key (path_name x)) (matching_files lib w rx es) of
        Inl e \<Rightarrow> (w, Uncaught e)
      | Inr sorted_files \<Rightarrow> (w, Returned sorted_files))"
  by (simp add: find_matching_pdfs_def)


lemma listed_directory_ok:
  "fs w (resolve w (arg_directory a)) = Some (Dir names) \<Longrightarrow>
   directory_ok w a \<and> \<not> unlistable w a"
  by (simp add: directory_ok_def unlistable_def exists_def is_dir_def iterdir_def)



lemma main_run:
  "directory_ok w a \<Longrightarrow>
   resolve_output (resolve w (arg_directory a)) (Path (arg_output a)) = Inr out \<Longrightarrow>
   main lib w a =
     (case find_matching_pdfs lib
             (say (say w (Searching (arg_pattern a))) (DirectoryIs (resolve w (arg_directory a))))
             (resolve w (arg_directory a)) (arg_pattern a) of
        (w2, Returned matching_pdfs) \<Rightarrow> merge_pdfs w2 matching_pdfs out
      | (w2, SysExit n) \<Rightarrow> (w2, SysExit n)
      | (w2, Uncaught e) \<Rightarrow> (w2, Uncaught e))"
  by (auto simp: main_def directory_ok_def Let_def)

lemma name_suffix_Nil: "name_suffix [] = []"
  by (simp add: name_suffix_def rfind_def)



lemma merge_pdfs_empty: "merge_pdfs w [] out = (say w NoFilesFound, Returned ())"
  by (simp add: merge_pdfs_def)


lemma match_set_eq:
  "compile_ignorecase lib (arg_pattern a) = Some rx \<Longrightarrow>
   iterdir w (resolve w (arg_directory a)) = Inr es \<Longrightarrow>
   match_set lib w a = matching_files lib w rx es"
  by (simp add: match_set_def)


lemma unlistable_say: "unlistable (say w m) a = unlistable w a"
  by (simp add: unlistable_def say_queries say_simps)

text \<open>
  C7, as stated, fails for an output path without a final component: no entry of the
  directory matches the pattern, so the match set is empty, but \<open>with_suffix\<close> raises
  before the directory is searched; nothing is reported and the status is 1.
\<close>

theorem empty_match_set_unnamed_output:
  "match_set lit_engine (world_of two_files WriteOk)
      \<lparr>arg_pattern = ''lecture'', arg_output = ''.'', arg_directory = ''.''\<rparr> = []
   \<and> exit_status (snd (main lit_engine (world_of two_files WriteOk)
        \<lparr>arg_pattern = ''lecture'', arg_output = ''.'', arg_directory = ''.''\<rparr>)) = 1
   \<and> stdout (fst (main lit_engine (world_of two_files WriteOk)
        \<lparr>arg_pattern = ''lecture'', arg_output = ''.'', arg_directory = ''.''\<rparr>)) = []"
  by code_simp

text \<open>
  C7, amended: for every invocation that gets as far as the merger with an empty match
  set (the search directory is a directory that can be listed, the output path has a
  final component, the pattern compiles, no entry is selected, and standard output
  takes the lines printed), the run says that no file was found, leaves the whole
  file system as it was, and ends with status 0.
\<close>

theorem empty_match_set_no_output:
  assumes "fs w (resolve w (arg_directory a)) = Some (Dir names)"
    and "resolve_output (resolve w (arg_directory a)) (Path (arg_output a)) = Inr out"
    and "compile_ignorecase lib (arg_pattern a) = Some rx"
    and "match_set lib w a = []"
    and "\<forall>m. printable w m"
  shows "exit_status (snd (main lib w a)) = 0
         \<and> fs (fst (main lib w a)) = fs w
         \<and> last (stdout (fst (main lib w a))) = NoFilesFound
         \<and> merge_pdfs w [] out = (say w NoFilesFound, Returned ())"
proof -
  let ?d = "resolve w (arg_directory a)"
  let ?w1 = "say (say w (Searching (arg_pattern a))) (DirectoryIs ?d)"
  from listed_directory_ok [OF assms(1)] have ok: "directory_ok w a" ..
  have es: "iterdir w ?d = Inr (map (child ?d) names)" using assms(1) by (simp add: iterdir_def)
  then have es1: "iterdir ?w1 ?d = Inr (map (child ?d) names)" by (simp add: say_queries)
  have "matching_files lib ?w1 rx (map (child ?d) names) = []"
    using match_set_eq [OF assms(3) es] assms(4) by (simp add: matching_files_say)
  then have "find_matching_pdfs lib ?w1 ?d (arg_pattern a) = (?w1, Returned [])"
    using find_matching_pdfs_regex [OF assms(3) es1] by (simp add: list_sort_def)
  then have "main lib w a = (say ?w1 NoFilesFound, Returned ())"
    using main_run [OF ok assms(2), of lib] by (simp add: merge_pdfs_empty)
  then show ?thesis by (simp add: say_simps merge_pdfs_empty)
qed

theorem empty_match_set_no_output_witness:
  "exit_status (snd (main lit_engine (world_of two_files WriteOk)
      \<lparr>arg_pattern = ''lecture'', arg_output = ''out'', arg_directory = ''.''\<rparr>)) = 0
   \<and> fs (fst (main lit_engine (world_of two_files WriteOk)
      \<lparr>arg_pattern = ''lecture'', arg_output = ''out'', arg_directory = ''.''\<rparr>))
     = fs (world_of two_files WriteOk)
   \<and> last (stdout (fst (main lit_engine (world_of two_files WriteOk)
      \<lparr>arg_pattern = ''lecture'', arg_output = ''out'', arg_directory = ''.''\<rparr>)))
     = NoFilesFound"
proof -
  let ?w = "world_of two_files WriteOk"
  let ?a = "\<lparr>arg_pattern = ''lecture'', arg_output = ''out'', arg_directory = ''.''\<rparr>"
  have h1: "fs ?w (resolve ?w (arg_directory ?a)) = Some (Dir [''B.pdf'', ''A.pdf''])"
    by code_simp
  have h2: "resolve_output (resolve ?w (arg_directory ?a)) (Path (arg_output ?a))
            = Inr (child docs ''out.pdf'')" by code_simp
  have h3: "compile_ignorecase lit_engine (arg_pattern ?a) = Some ''lecture''" by code_simp
  have h4: "match_set lit_engine ?w ?a = []" by code_simp
  have h5: "\<forall>m. printable ?w m" by (simp add: world_of_def)
  from empty_match_set_no_output [OF h1 h2 h3 h4 h5] show ?thesis by simp
qed





section \<open>The output path\<close>

lemma rfind_dot_pdf: "rfind (CHR ''.'') (s @ ''.pdf'') = int (length s)"
  by (simp add: rfind_def)

lemma name_suffix_pdf: "s \<noteq> [] \<Longrightarrow> name_suffix (s @ ''.pdf'') = ''.pdf''"
  by (simp add: name_suffix_def rfind_dot_pdf)

lemma name_suffix_shorter: "name_suffix nm \<noteq> [] \<Longrightarrow> length (name_suffix nm) < length nm"
  by (auto simp: name_suffix_def Let_def split: if_splits)

lemma stem_nonempty: "nm \<noteq> [] \<Longrightarrow> stem nm \<noteq> []"
  using name_suffix_shorter [of nm] by (cases "name_suffix nm = []") (auto simp: stem_def)

lemma with_suffix_pdf:
  "path_name p \<noteq> [] \<Longrightarrow>
   with_suffix p ''.pdf'' = Inr (p\<lparr>parts := butlast (parts p) @ [stem (path_name p) @ ''.pdf'']\<rparr>)"
  by (simp add: with_suffix_def Let_def stem_def path_suffix_def)

lemma path_name_snoc: "path_name (p\<lparr>parts := xs @ [nm]\<rparr>) = nm"
  by (simp add: path_name_def)

lemma parts_butlast_name: "path_name p \<noteq> [] \<Longrightarrow> parts p = butlast (parts p) @ [path_name p]"
  by (auto simp: path_name_def split: if_splits)

lemma ensure_pdf_suffix_name:
  assumes "path_name p \<noteq> []"
  shows "\<exists>q. ensure_pdf_suffix p = Inr q \<and> root q = root p
           \<and> path_name q = (if str_lower (path_suffix p) = ''.pdf'' then path_name p
                             else stem (path_name p) @ ''.pdf'')
           \<and> parts q = butlast (parts p) @ [path_name q]
           \<and> str_lower (path_suffix q) = ''.pdf''"
proof (cases "str_lower (path_suffix p) = ''.pdf''")
  case True
  then show ?thesis using parts_butlast_name [OF assms] by (simp add: ensure_pdf_suffix_def)
next
  case False
  let ?q = "p\<lparr>parts := butlast (parts p) @ [stem (path_name p) @ ''.pdf'']\<rparr>"
  have "ensure_pdf_suffix p = Inr ?q"
    using False with_suffix_pdf [OF assms] by (simp add: ensure_pdf_suffix_def)
  moreover have "path_name ?q = stem (path_name p) @ ''.pdf''" by (rule path_name_snoc)
  moreover have "path_suffix ?q = ''.pdf''"
    using stem_nonempty [OF assms] by (simp add: path_suffix_def path_name_snoc name_suffix_pdf)
  moreover have "str_lower ''.pdf'' = ''.pdf''" by code_simp
  ultimately show ?thesis using False by (simp add: path_name_snoc)
qed

text \<open>
  C4, as stated, fails for an output path without a final component: the empty
  string has no \<open>.pdf\<close> suffix, and instead of a rewritten path the run ends with an
  uncaught \<open>ValueError\<close>.
\<close>

theorem empty_output_not_rewritten:
  "str_lower (path_suffix (Path '''')) \<noteq> ''.pdf''
   \<and> resolve_output docs (Path '''') = Inl ValueError
   \<and> snd (main lit_engine (world_of two_files WriteOk)
        \<lparr>arg_pattern = ''a'', arg_output = '''', arg_directory = ''.''\<rparr>) = Uncaught ValueError"
  by code_simp

lemma resolve_output_named:
  assumes "path_name output_path \<noteq> []"
  shows "\<exists>p. resolve_output directory output_path = Inr p
           \<and> str_lower (path_suffix p) = ''.pdf''
           \<and> path_name p = (if str_lower (path_suffix output_path) = ''.pdf''
                             then path_name output_path
                             else stem (path_name output_path) @ ''.pdf'')
           \<and> root p = (if is_absolute output_path then root output_path else root directory)
           \<and> parts p = (if is_absolute output_path then [] else parts directory)
                         @ butlast (parts output_path) @ [path_name p]"
proof -
  from ensure_pdf_suffix_name [OF assms] obtain q where
    q: "ensure_pdf_suffix output_path = Inr q" "root q = root output_path"
       "path_name q = (if str_lower (path_suffix output_path) = ''.pdf''
                       then path_name output_path else stem (path_name output_path) @ ''.pdf'')"
       "parts q = butlast (parts output_path) @ [path_name q]"
       "str_lower (path_suffix q) = ''.pdf''" by blast
  let ?p = "relative_to_directory directory q"
  have r: "resolve_output directory output_path = Inr ?p"
    using q(1) by (simp add: resolve_output_def)
  have ne: "parts q \<noteq> []" using q(4) by (cases "parts q") auto
  have nm: "path_name ?p = path_name q"
    using ne by (simp add: relative_to_directory_def joinpath_def path_name_def)
  have "root ?p = (if is_absolute output_path then root output_path else root directory)"
    using q(2) by (simp add: relative_to_directory_def joinpath_def is_absolute_def)
  moreover have "parts ?p = (if is_absolute output_path then [] else parts directory)
                         @ butlast (parts output_path) @ [path_name ?p]"
    using q(2,4) nm by (simp add: relative_to_directory_def joinpath_def is_absolute_def)
  moreover have "str_lower (path_suffix ?p) = ''.pdf''"
    using q(5) nm by (simp add: path_suffix_def)
  ultimately show ?thesis using r nm q(3) by simp
qed

lemma resolve_output_unnamed:
  "path_name output_path = [] \<Longrightarrow> resolve_output directory output_path = Inl ValueError"
  by (simp add: resolve_output_def ensure_pdf_suffix_def with_suffix_def path_suffix_def
                name_suffix_Nil str_lower_def)

text \<open>
  C4, amended: for every output path with a non-empty final component, the path
  handed to the merger has the suffix \<open>.pdf\<close>: a final component whose suffix is not
  \<open>.pdf\<close> (whatever the case) has that suffix replaced by \<open>.pdf\<close>, or \<open>.pdf\<close> appended when
  it has none, and any other is kept; the components before it are kept; and a path
  that is not absolute is put under the search directory, its components following
  those of the directory. An output path without a final component is not rewritten:
  \<open>with_suffix\<close> raises \<open>ValueError\<close>.
\<close>

theorem output_path_resolved:
  "(path_name output_path \<noteq> [] \<longrightarrow>
      (\<exists>p. resolve_output directory output_path = Inr p
           \<and> str_lower (path_suffix p) = ''.pdf''
           \<and> path_name p = (if str_lower (path_suffix output_path) = ''.pdf''
                             then path_name output_path
                             else stem (path_name output_path) @ ''.pdf'')
           \<and> root p = (if is_absolute output_path then root output_path else root directory)
           \<and> parts p = (if is_absolute output_path then [] else parts directory)
                         @ butlast (parts output_path) @ [path_name p]))
   \<and> (path_name output_path = [] \<longrightarrow>
        resolve_output directory output_path = Inl ValueError)"
  using resolve_output_named [of output_path directory]
        resolve_output_unnamed [of output_path directory]
  by blast

theorem output_path_resolved_witness:
  "path_name (Path ''notes/out.txt'') \<noteq> []
   \<and> resolve_output docs (Path ''notes/out.txt'')
     = Inr \<lparr>root = ''/'', parts = [''docs'', ''notes'', ''out.pdf'']\<rparr>
   \<and> path_name (Path ''/'') = []
   \<and> resolve_output docs (Path ''/'') = Inl ValueError"
proof -
  have h: "path_name (Path ''notes/out.txt'') \<noteq> []" by code_simp
  have e: "resolve_output docs (Path ''notes/out.txt'')
           = Inr \<lparr>root = ''/'', parts = [''docs'', ''notes'', ''out.pdf'']\<rparr>" by code_simp
  have h': "path_name (Path ''/'') = []" by code_simp
  from output_path_resolved [of "Path ''notes/out.txt''" docs]
       output_path_resolved [of "Path ''/''" docs] h e h'
  show ?thesis by simp
qed

section \<open>The selection\<close>

lemma path_name_child: "path_name (child d n) = n"
  by (simp add: path_name_def child_def)

lemma path_suffix_child: "path_suffix (child d n) = name_suffix n"
  by (simp add: path_suffix_def path_name_child)

lemma re_search_iff: "re_search lib rx s \<longleftrightarrow> (\<exists>i\<le>length s. match_at lib rx s i)"
proof -
  have "set [0..<Suc (length s)] = {i. i \<le> length s}" by auto
  then show ?thesis unfolding re_search_def list_ex_iff by blast
qed

lemma is_file_iff: "is_file w p \<longleftrightarrow> (\<exists>c. fs w p = Some (File c))"
  by (auto simp: is_file_def split: option.splits node.splits)

lemma child_not_grandchild: "child (child d sub) n \<noteq> child d n'"
  by (simp add: child_def)

lemma matching_files_iff:
  "p \<in> set (matching_files lib w rx (map (child d) names)) \<longleftrightarrow>
     (\<exists>n\<in>set names. p = child d n \<and> (\<exists>c. fs w p = Some (File c))
        \<and> str_lower (name_suffix n) = ''.pdf'' \<and> (\<exists>i\<le>length n. match_at lib rx n i))"
proof -
  have "p \<in> set (matching_files lib w rx (map (child d) names)) \<longleftrightarrow>
          (\<exists>n\<in>set names. p = child d n \<and> selected lib w rx (child d n))"
    by (auto simp: matching_files_def)
  also have "\<dots> \<longleftrightarrow> (\<exists>n\<in>set names. p = child d n \<and> (\<exists>c. fs w p = Some (File c))
        \<and> str_lower (name_suffix n) = ''.pdf'' \<and> (\<exists>i\<le>length n. match_at lib rx n i))"
    unfolding selected_def path_name_child path_suffix_child re_search_iff is_file_iff
    by blast
  finally show ?thesis .
qed

text \<open>
  C3: with the pattern compiled and the directory listed, a path is collected, and is
  in the list that \<open>find_matching_pdfs\<close> returns, exactly when it is an entry of the
  directory itself that is a regular file, whose suffix is \<open>.pdf\<close> once lowered, and in
  whose name the pattern, compiled without regard to case, matches at some offset.
  No entry of a subdirectory is ever collected.
\<close>

theorem candidate_iff:
  assumes "compile_ignorecase lib pattern = Some regex"
    and "fs w directory = Some (Dir names)"
  shows "(p \<in> set (matching_files lib w regex (map (child directory) names)) \<longleftrightarrow>
           (\<exists>n. n \<in> set names \<and> p = child directory n
              \<and> (\<exists>c. fs w (child directory n) = Some (File c))
              \<and> str_lower (path_suffix (child directory n)) = ''.pdf''
              \<and> (\<exists>i\<le>length n. match_at lib regex n i)))
       \<and> (\<forall>w' files. find_matching_pdfs lib w directory pattern = (w', Returned files) \<longrightarrow>
             set files = set (matching_files lib w regex (map (child directory) names)))
       \<and> (\<forall>sub n. child (child directory sub) n
             \<notin> set (matching_files lib w regex (map (child directory) names)))"
proof -
  have it: "iterdir w directory = Inr (map (child directory) names)"
    using assms(2) by (simp add: iterdir_def)
  have a: "p \<in> set (matching_files lib w regex (map (child directory) names)) \<longleftrightarrow>
           (\<exists>n. n \<in> set names \<and> p = child directory n
              \<and> (\<exists>c. fs w (child directory n) = Some (File c))
              \<and> str_lower (path_suffix (child directory n)) = ''.pdf''
              \<and> (\<exists>i\<le>length n. match_at lib regex n i))"
    unfolding matching_files_iff path_suffix_child by blast
  have b: "\<forall>w' files. find_matching_pdfs lib w directory pattern = (w', Returned files) \<longrightarrow>
             set files = set (matching_files lib w regex (map (child directory) names))"
    using find_matching_pdfs_regex [OF assms(1) it]
    by (auto split: sum.splits dest: list_sort_set)
  have c: "\<forall>sub n. child (child directory sub) n
             \<notin> set (matching_files lib w regex (map (child directory) names))"
    unfolding matching_files_iff using child_not_grandchild by blast
  from a b c show ?thesis by blast
qed

theorem candidate_iff_witness:
  "compile_ignorecase lit_engine ''L'' = Some ''l''
   \<and> fs (world_of mixed_dir WriteOk) docs
       = Some (Dir [''L10.pdf'', ''notes.txt'', ''sub'', ''l2.PDF'', ''L4.pdf'', ''M1.pdf''])
   \<and> snd (find_matching_pdfs lit_engine (world_of mixed_dir WriteOk) docs ''L'')
       = Returned [child docs ''l2.PDF'', child docs ''L10.pdf'']
   \<and> set (matching_files lit_engine (world_of mixed_dir WriteOk) ''l''
            (map (child docs) [''L10.pdf'', ''notes.txt'', ''sub'', ''l2.PDF'', ''L4.pdf'', ''M1.pdf'']))
       = set [child docs ''l2.PDF'', child docs ''L10.pdf'']
   \<and> child (child docs ''sub'') ''L3.pdf''
       \<notin> set (matching_files lit_engine (world_of mixed_dir WriteOk) ''l''
            (map (child docs) [''L10.pdf'', ''notes.txt'', ''sub'', ''l2.PDF'', ''L4.pdf'', ''M1.pdf'']))"
proof -
  let ?w = "world_of mixed_dir WriteOk"
  have h1: "compile_ignorecase lit_engine ''L'' = Some ''l''" by code_simp
  have h2: "fs ?w docs
       = Some (Dir [''L10.pdf'', ''notes.txt'', ''sub'', ''l2.PDF'', ''L4.pdf'', ''M1.pdf''])"
    by code_simp
  have e: "snd (find_matching_pdfs lit_engine ?w docs ''L'')
       = Returned [child docs ''l2.PDF'', child docs ''L10.pdf'']"
    by code_simp
  obtain w' where e': "find_matching_pdfs lit_engine ?w docs ''L''
       = (w', Returned [child docs ''l2.PDF'', child docs ''L10.pdf''])"
    using e by (cases "find_matching_pdfs lit_engine ?w docs ''L''") auto
  from candidate_iff [OF h1 h2, of "child docs ''l2.PDF''"] h1 h2 e e' show ?thesis by auto
qed

section \<open>A name whose key is not defined\<close>

text \<open>
  C1 and C8: \<open>re.split\<close> leaves the superscript two as a text run of its own between
  the digit runs; \<open>isdigit()\<close> holds of it, so \<open>convert\<close> calls \<open>int\<close> on it, which
  raises. The run is not compared as text: the name has no key at all.
\<close>

theorem superscript_run_not_text:
  "re_split_digits superscript_name = ['''', ''1'', [CHR 0xB2], ''2'', ''.pdf'']
   \<and> str_isdigit [CHR 0xB2]
   \<and> convert [CHR 0xB2] = Inl ValueError
   \<and> natural_sort_key superscript_name = Inl ValueError"
  by code_simp

text \<open>
  C8: sorting a list of names that holds this name fails, and so does the run in a
  directory that holds a matching file of this name: the \<open>ValueError\<close> escapes.
\<close>

theorem sorting_superscript_name_fails:
  "list_sort natural_sort_key [''L2.pdf'', superscript_name] = Inl ValueError
   \<and> snd (find_matching_pdfs lit_engine (world_of superscript_dir WriteOk) docs ''pdf'')
       = Uncaught ValueError
   \<and> snd (main lit_engine (world_of superscript_dir WriteOk)
        \<lparr>arg_pattern = ''pdf'', arg_output = ''out'', arg_directory = ''.''\<rparr>)
       = Uncaught ValueError"
  by code_simp

theorem sorting_superscript_name_fails_witness:
  "exit_status (snd (main lit_engine (world_of superscript_dir WriteOk)
        \<lparr>arg_pattern = ''pdf'', arg_output = ''out'', arg_directory = ''.''\<rparr>)) = 1"
  using sorting_superscript_name_fails by simp

section \<open>Names with equal keys\<close>

lemma code_less_256: "code c < 256"
  by (simp add: code_def)

lemma code_char_of: "n < 256 \<Longrightarrow> code (char_of n) = n"
  by (simp add: code_def)

lemma lower_char_decimal: "is_decimal c \<Longrightarrow> lower_char c = c"
  by (simp add: is_decimal_def lower_char_def Let_def)

lemma is_decimal_lower: "is_decimal (lower_char c) = is_decimal c"
  using code_less_256 [of c]
  by (auto simp: is_decimal_def lower_char_def Let_def code_char_of)

lemma isdigit_lower: "isdigit_char (lower_char c) = isdigit_char c"
  using code_less_256 [of c]
  by (auto simp: isdigit_char_def is_decimal_def lower_char_def Let_def code_char_of)

lemma lower_char_idem: "lower_char (lower_char c) = lower_char c"
  using code_less_256 [of c]
  by (auto simp: lower_char_def Let_def code_char_of)

lemma str_lower_idem: "str_lower (str_lower s) = str_lower s"
  by (simp add: str_lower_def lower_char_idem)

lemma str_lower_decimal: "list_all is_decimal s \<Longrightarrow> str_lower s = s"
  by (induction s) (auto simp: str_lower_def lower_char_decimal)

lemma takeWhile_lower:
  "takeWhile (\<lambda>c. \<not> is_decimal c) (str_lower s) = str_lower (takeWhile (\<lambda>c. \<not> is_decimal c) s)"
  "takeWhile is_decimal (str_lower s) = str_lower (takeWhile is_decimal s)"
  "dropWhile (\<lambda>c. \<not> is_decimal c) (str_lower s) = str_lower (dropWhile (\<lambda>c. \<not> is_decimal c) s)"
  "dropWhile is_decimal (str_lower s) = str_lower (dropWhile is_decimal s)"
  by (simp_all add: str_lower_def takeWhile_map dropWhile_map comp_def is_decimal_lower)

lemma str_lower_Nil: "str_lower s = [] \<longleftrightarrow> s = []"
  by (simp add: str_lower_def)

lemma re_split_lower: "re_split_digits (str_lower s) = map str_lower (re_split_digits s)"
proof (induction s rule: re_split_digits.induct)
  case (1 s)
  let ?nd = "\<lambda>c. \<not> is_decimal c"
  show ?case
  proof (cases "dropWhile ?nd s = []")
    case True
    then have "dropWhile ?nd (str_lower s) = []" by (simp add: takeWhile_lower str_lower_Nil)
    from re_split_no_digit [OF this] re_split_no_digit [OF True] show ?thesis by simp
  next
    case False
    then have ne: "dropWhile ?nd (str_lower s) \<noteq> []"
      by (simp add: takeWhile_lower str_lower_Nil)
    from "1.IH" [OF refl refl False]
    have "re_split_digits (str_lower (dropWhile is_decimal (dropWhile ?nd s)))
          = map str_lower (re_split_digits (dropWhile is_decimal (dropWhile ?nd s)))" .
    then show ?thesis
      by (simp add: re_split_digit [OF ne] re_split_digit [OF False] takeWhile_lower)
  qed
qed

lemma str_isdigit_lower: "str_isdigit (str_lower t) = str_isdigit t"
  by (simp add: str_isdigit_def str_lower_def list_all_iff isdigit_lower)

lemma int_of_digits_lower: "int_of_digits (str_lower t) = int_of_digits t"
proof (cases "list_all is_decimal t")
  case True
  then show ?thesis by (simp add: str_lower_decimal)
next
  case False
  then have "\<not> list_all is_decimal (str_lower t)"
    by (simp add: str_lower_def list_all_iff is_decimal_lower)
  with False show ?thesis by (simp add: int_of_digits_def)
qed

lemma convert_lower: "convert (str_lower t) = convert t"
  by (simp add: convert_def str_isdigit_lower int_of_digits_lower str_lower_idem)

lemma natural_sort_key_lower: "natural_sort_key (str_lower s) = natural_sort_key s"
  by (simp add: natural_sort_key_def re_split_lower comprehension_map convert_lower)

lemma natural_sort_key_case: "str_lower a = str_lower b \<Longrightarrow> natural_sort_key a = natural_sort_key b"
  using natural_sort_key_lower [of a] natural_sort_key_lower [of b] by simp

lemma re_split_around:
  assumes X: "X \<noteq> []" "list_all is_decimal X" and post: "starts_text post"
  shows "ends_text pre \<Longrightarrow>
         re_split_digits (pre @ X @ post) = re_split_digits pre @ X # re_split_digits post"
proof (induction pre rule: re_split_digits.induct)
  case (1 s)
  let ?nd = "\<lambda>c. \<not> is_decimal c"
  have hdX: "is_decimal (hd X)" using X by (cases X) auto
  have tX: "takeWhile ?nd (X @ post) = []" using X hdX by (cases X) auto
  have dX: "dropWhile ?nd (X @ post) = X @ post" using X hdX by (cases X) auto
  have allX: "\<And>x. x \<in> set X \<Longrightarrow> is_decimal x" using X(2) by (simp add: list_all_iff)
  have tpost: "takeWhile is_decimal post = []" using post by (cases post) (auto simp: starts_text_def)
  have dpost: "dropWhile is_decimal post = post" using post by (cases post) (auto simp: starts_text_def)
  have tXp: "takeWhile is_decimal (X @ post) = X"
    using allX by (simp add: takeWhile_append2 tpost)
  have dXp: "dropWhile is_decimal (X @ post) = post"
    using allX by (simp add: dropWhile_append2 dpost)
  show ?case
  proof (cases "dropWhile ?nd s = []")
    case True
    then have alls: "\<And>x. x \<in> set s \<Longrightarrow> \<not> is_decimal x" by (simp add: dropWhile_eq_Nil_conv)
    have t: "takeWhile ?nd (s @ X @ post) = s"
      using alls by (simp add: takeWhile_append2 tX)
    have d: "dropWhile ?nd (s @ X @ post) = X @ post"
      using alls by (simp add: dropWhile_append2 dX)
    have ne: "dropWhile ?nd (s @ X @ post) \<noteq> []" using d X by simp
    show ?thesis
      by (simp add: re_split_digit [OF ne] re_split_no_digit [OF True] t d tXp dXp)
  next
    case False
    let ?r = "dropWhile ?nd s"
    let ?u = "dropWhile is_decimal ?r"
    from False obtain x where x: "x \<in> set s" "\<not> ?nd x"
      by (auto simp: dropWhile_eq_Nil_conv)
    have t: "takeWhile ?nd (s @ X @ post) = takeWhile ?nd s"
      using x by (rule takeWhile_append1)
    have d: "dropWhile ?nd (s @ X @ post) = ?r @ X @ post"
      using x by (rule dropWhile_append1)
    have lr: "last s = last ?r"
    proof -
      have "last (takeWhile ?nd s @ ?r) = last ?r" using False by (rule last_appendR)
      then show ?thesis by (simp only: takeWhile_dropWhile_id)
    qed
    have sne: "s \<noteq> []" using False by auto
    have nlast: "\<not> is_decimal (last s)"
      using "1.prems" sne unfolding ends_text_def by blast
    have une: "?u \<noteq> []"
    proof
      assume "?u = []"
      then have "\<forall>y\<in>set ?r. is_decimal y" by (simp only: dropWhile_eq_Nil_conv)
      moreover have "last ?r \<in> set ?r" using False by (rule last_in_set)
      ultimately have "is_decimal (last ?r)" by blast
      then have "is_decimal (last s)" unfolding lr .
      with nlast show False by blast
    qed
    then obtain y where y: "y \<in> set ?r" "\<not> is_decimal y"
      by (auto simp: dropWhile_eq_Nil_conv)
    have t2: "takeWhile is_decimal (?r @ X @ post) = takeWhile is_decimal ?r"
      using y by (rule takeWhile_append1)
    have d2: "dropWhile is_decimal (?r @ X @ post) = ?u @ X @ post"
      using y by (rule dropWhile_append1)
    have lu: "last ?r = last ?u"
    proof -
      have "last (takeWhile is_decimal ?r @ ?u) = last ?u" using une by (rule last_appendR)
      then show ?thesis by (simp only: takeWhile_dropWhile_id)
    qed
    have "\<not> is_decimal (last ?u)" using nlast unfolding lr lu .
    then have eu: "ends_text ?u" unfolding ends_text_def by blast
    have IH: "re_split_digits (?u @ X @ post) = re_split_digits ?u @ X # re_split_digits post"
      using "1.IH" [OF refl refl False eu] .
    have ne: "dropWhile ?nd (s @ X @ post) \<noteq> []" using d False by simp
    show ?thesis
      by (simp add: re_split_digit [OF ne] re_split_digit [OF False] t d t2 d2 IH)
  qed
qed

lemma zeros_value: "all_zeros zs \<Longrightarrow> foldl (\<lambda>a c. 10 * a + digit_val c) 0 zs = 0"
  by (induction zs) (auto simp: all_zeros_def digit_val_def code_def)

lemma zeros_decimal: "all_zeros zs \<Longrightarrow> list_all is_decimal zs"
  by (induction zs) (auto simp: all_zeros_def is_decimal_def code_def)

lemma decimal_isdigit: "list_all is_decimal s \<Longrightarrow> list_all isdigit_char s"
  by (induction s) (auto simp: isdigit_char_def)

lemma convert_leading_zeros:
  assumes "all_zeros zs" and "run \<noteq> []" and "list_all is_decimal run"
  shows "convert (zs @ run) = convert run"
proof -
  have d: "list_all is_decimal (zs @ run)" using zeros_decimal [OF assms(1)] assms(3) by simp
  have "int_of_digits (zs @ run) = int_of_digits run"
    using d assms(2,3) zeros_value [OF assms(1)] by (simp add: int_of_digits_def)
  moreover have "str_isdigit (zs @ run)" "str_isdigit run"
    using decimal_isdigit [OF d] decimal_isdigit [OF assms(3)] assms(2)
    by (simp_all add: str_isdigit_def)
  ultimately show ?thesis by (simp add: convert_def)
qed

lemma natural_sort_key_leading_zeros:
  assumes "ends_text pre" and "all_zeros zs" and "run \<noteq> []" and "list_all is_decimal run"
    and "starts_text post"
  shows "natural_sort_key (pre @ zs @ run @ post) = natural_sort_key (pre @ run @ post)"
proof -
  have d: "list_all is_decimal (zs @ run)" using zeros_decimal [OF assms(2)] assms(4) by simp
  have ne: "zs @ run \<noteq> []" using assms(3) by simp
  have a: "re_split_digits (pre @ (zs @ run) @ post)
           = re_split_digits pre @ (zs @ run) # re_split_digits post"
    using re_split_around [OF ne d assms(5) assms(1)] .
  have b: "re_split_digits (pre @ run @ post) = re_split_digits pre @ run # re_split_digits post"
    using re_split_around [OF assms(3,4,5,1)] .
  from a have a': "re_split_digits (pre @ zs @ run @ post)
           = re_split_digits pre @ (zs @ run) # re_split_digits post" by simp
  show ?thesis
    unfolding natural_sort_key_def a' b comprehension_append
    by (cases "comprehension convert (re_split_digits pre)")
       (simp_all add: convert_leading_zeros [OF assms(2,3,4)])
qed

lemma list_sort_keys:
  assumes "list_sort f xs = Inr r"
  shows "\<forall>x\<in>set xs. \<exists>k. f x = Inr k"
proof -
  from assms obtain kxs where "comprehension (with_key f) xs = Inr kxs"
    by (auto simp: list_sort_def split: sum.splits)
  then have "\<forall>x\<in>set xs. \<exists>y. with_key f x = Inr y"
    using comprehension_Inr_iff [of "with_key f" xs] by blast
  then have "\<And>x. x \<in> set xs \<Longrightarrow> \<exists>k. f x = Inr k"
  proof -
    fix x assume "x \<in> set xs"
    with \<open>\<forall>x\<in>set xs. \<exists>y. with_key f x = Inr y\<close> obtain y where "with_key f x = Inr y" by blast
    then show "\<exists>k. f x = Inr k" by (cases "f x") (simp_all add: with_key_def)
  qed
  then show ?thesis by blast
qed

lemma list_sort_stable_any:
  assumes "list_sort f xs = Inr r"
  shows "filter (\<lambda>x. f x = k) r = filter (\<lambda>x. f x = k) xs"
proof (cases k)
  case (Inr k')
  then show ?thesis using list_sort_stable [OF assms, of k'] by simp
next
  case (Inl e)
  have "\<forall>x\<in>set xs. f x \<noteq> k" using list_sort_keys [OF assms] Inl by auto
  moreover have "\<forall>x\<in>set r. f x \<noteq> k"
    using list_sort_keys [OF assms] list_sort_set [OF assms] Inl by auto
  ultimately show ?thesis by (simp add: filter_False)
qed

text \<open>
  C10: the key is not injective. Two names that are equal once lowered have the same
  key; so have two names that differ only in zeros in front of a digit run, as
  \<open>L02.pdf\<close> and \<open>L2.pdf\<close> do. The sort is stable: in the list that
  \<open>find_matching_pdfs\<close> returns, the files with any one key stand in the order in which
  the directory listed them.
\<close>

theorem equal_keys_keep_listing_order:
  "(str_lower a = str_lower b \<longrightarrow> natural_sort_key a = natural_sort_key b)
   \<and> (ends_text pre \<and> all_zeros zs \<and> run \<noteq> [] \<and> list_all is_decimal run \<and> starts_text post
        \<longrightarrow> natural_sort_key (pre @ zs @ run @ post) = natural_sort_key (pre @ run @ post))
   \<and> natural_sort_key ''L02.pdf'' = natural_sort_key ''L2.pdf''
   \<and> (compile_ignorecase lib pattern = Some regex \<and> fs w directory = Some (Dir names)
        \<and> find_matching_pdfs lib w directory pattern = (w', Returned files)
        \<longrightarrow> filter (\<lambda>f. natural_sort_key (path_name f) = k) files
            = filter (\<lambda>f. natural_sort_key (path_name f) = k)
                (matching_files lib w regex (map (child directory) names)))"
proof -
  have c1: "str_lower a = str_lower b \<longrightarrow> natural_sort_key a = natural_sort_key b"
    using natural_sort_key_case by blast
  have c2: "ends_text pre \<and> all_zeros zs \<and> run \<noteq> [] \<and> list_all is_decimal run \<and> starts_text post
        \<longrightarrow> natural_sort_key (pre @ zs @ run @ post) = natural_sort_key (pre @ run @ post)"
    using natural_sort_key_leading_zeros by blast
  have c3: "natural_sort_key ''L02.pdf'' = natural_sort_key ''L2.pdf''" by code_simp
  have c4: "compile_ignorecase lib pattern = Some regex \<and> fs w directory = Some (Dir names)
        \<and> find_matching_pdfs lib w directory pattern = (w', Returned files)
        \<longrightarrow> filter (\<lambda>f. natural_sort_key (path_name f) = k) files
            = filter (\<lambda>f. natural_sort_key (path_name f) = k)
                (matching_files lib w regex (map (child directory) names))"
  proof (intro impI, elim conjE)
    assume c: "compile_ignorecase lib pattern = Some regex"
      and d: "fs w directory = Some (Dir names)"
      and f: "find_matching_pdfs lib w directory pattern = (w', Returned files)"
    have it: "iterdir w directory = Inr (map (child directory) names)"
      using d by (simp add: iterdir_def)
    from find_matching_pdfs_regex [OF c it] f
    have "list_sort (\<lambda>x. natural_sort_key (path_name x))
            (matching_files lib w regex (map (child directory) names)) = Inr files"
      by (auto split: sum.splits)
    from list_sort_stable_any [OF this, of k]
    show "filter (\<lambda>f. natural_sort_key (path_name f) = k) files
            = filter (\<lambda>f. natural_sort_key (path_name f) = k)
                (matching_files lib w regex (map (child directory) names))" .
  qed
  from c1 c2 c3 c4 show ?thesis by blast
qed

theorem equal_keys_keep_listing_order_witness:
  "str_lower ''L2.PDF'' = str_lower ''l2.pdf''
   \<and> natural_sort_key ''L2.PDF'' = natural_sort_key ''l2.pdf''
   \<and> natural_sort_key (''L'' @ ''00'' @ ''2'' @ ''.pdf'') = natural_sort_key (''L'' @ ''2'' @ ''.pdf'')
   \<and> snd (find_matching_pdfs lit_engine (world_of ties_dir WriteOk) docs ''l'')
       = Returned (map (child docs) [''L2.pdf'', ''L02.pdf'', ''l2.PDF'', ''L10.pdf''])
   \<and> filter (\<lambda>f. natural_sort_key (path_name f) = natural_sort_key ''l2.pdf'')
        (map (child docs) [''L2.pdf'', ''L02.pdf'', ''l2.PDF'', ''L10.pdf''])
       = filter (\<lambda>f. natural_sort_key (path_name f) = natural_sort_key ''l2.pdf'')
          (matching_files lit_engine (world_of ties_dir WriteOk) ''l''
            (map (child docs) [''L10.pdf'', ''L2.pdf'', ''L02.pdf'', ''l2.PDF'']))"
proof -
  let ?w = "world_of ties_dir WriteOk"
  let ?files = "map (child docs) [''L2.pdf'', ''L02.pdf'', ''l2.PDF'', ''L10.pdf'']"
  have h1: "str_lower ''L2.PDF'' = str_lower ''l2.pdf''" by code_simp
  have h2: "ends_text ''L'' \<and> all_zeros ''00'' \<and> ''2'' \<noteq> [] \<and> list_all is_decimal ''2''
            \<and> starts_text ''.pdf''" by code_simp
  have h3: "compile_ignorecase lit_engine ''l'' = Some ''l''" by code_simp
  have h4: "fs ?w docs = Some (Dir [''L10.pdf'', ''L2.pdf'', ''L02.pdf'', ''l2.PDF''])"
    by code_simp
  have e: "snd (find_matching_pdfs lit_engine ?w docs ''l'') = Returned ?files" by code_simp
  then obtain w' where h5: "find_matching_pdfs lit_engine ?w docs ''l'' = (w', Returned ?files)"
    by (cases "find_matching_pdfs lit_engine ?w docs ''l''") auto
  from equal_keys_keep_listing_order
    [of "''L2.PDF''" "''l2.pdf''" "''L''" "''00''" "''2''" "''.pdf''" lit_engine "''l''" "''l''"
        ?w docs "[''L10.pdf'', ''L2.pdf'', ''L02.pdf'', ''l2.PDF'']" w' ?files
        "natural_sort_key ''l2.pdf''"]
    h1 h2 h3 h4 h5 e
  show ?thesis by simp
qed

section \<open>Where the claims that fail still hold\<close>

text \<open>
  A name without superscript digits has a key, so a list of such names is sorted
  without an exception.
\<close>

lemma re_split_parts: "t \<in> set (re_split_digits s) \<Longrightarrow> set t \<subseteq> set s"
proof (induction s rule: re_split_digits.induct)
  case (1 s)
  let ?nd = "\<lambda>c. \<not> is_decimal c"
  show ?case
  proof (cases "dropWhile ?nd s = []")
    case True
    with "1.prems" show ?thesis by (simp add: re_split_no_digit)
  next
    case False
    let ?r = "dropWhile ?nd s"
    from "1.prems" re_split_digit [OF False]
    consider "t = takeWhile ?nd s" | "t = takeWhile is_decimal ?r"
      | "t \<in> set (re_split_digits (dropWhile is_decimal ?r))" by auto
    then show ?thesis
    proof cases
      case 1
      then show ?thesis by (auto dest: set_takeWhileD)
    next
      case 2
      then show ?thesis by (auto dest!: set_takeWhileD set_dropWhileD)
    next
      case 3
      from "1.IH" [OF refl refl False 3] show ?thesis by (auto dest!: set_dropWhileD)
    qed
  qed
qed

lemma convert_plain:
  assumes "plain_name t"
  shows "\<exists>y. convert t = Inr y"
proof (cases "str_isdigit t")
  case True
  then have "t \<noteq> []" "\<forall>c\<in>set t. isdigit_char c" by (auto simp: str_isdigit_def list_all_iff)
  with assms have "t \<noteq> [] \<and> list_all is_decimal t" by (auto simp: plain_name_def list_all_iff)
  then show ?thesis using True by (simp add: convert_def int_of_digits_def)
next
  case False
  then show ?thesis by (simp add: convert_def)
qed

lemma natural_sort_key_plain:
  assumes "plain_name s"
  shows "\<exists>k. natural_sort_key s = Inr k \<and> wf_key k"
proof -
  have "\<forall>t\<in>set (re_split_digits s). \<exists>y. convert t = Inr y"
  proof
    fix t assume "t \<in> set (re_split_digits s)"
    from re_split_parts [OF this] assms have "plain_name t"
      by (auto simp: plain_name_def list_all_iff)
    then show "\<exists>y. convert t = Inr y" by (rule convert_plain)
  qed
  then obtain k where "natural_sort_key s = Inr k"
    unfolding natural_sort_key_def using comprehension_Inr_iff [of convert "re_split_digits s"]
    by blast
  with natural_sort_key_wf [OF this] show ?thesis by blast
qed

lemma sort_plain_names:
  assumes "\<forall>n\<in>set names. plain_name n"
  shows "\<exists>r. list_sort natural_sort_key names = Inr r \<and> set r = set names"
proof -
  from assms have "\<forall>x\<in>set names. \<exists>k. natural_sort_key x = Inr k \<and> wf_key k"
    using natural_sort_key_plain by blast
  from list_sort_defined [OF this] obtain r where r: "list_sort natural_sort_key names = Inr r" ..
  from list_sort_set [OF r] r show ?thesis by blast
qed

text \<open>The order of the example of the specification.\<close>

lemma L2_before_L10:
  "natural_sort_key ''L2.pdf'' = Inr [KStr ''l'', KInt 2, KStr ''.pdf'']
   \<and> natural_sort_key ''L10.pdf'' = Inr [KStr ''l'', KInt 10, KStr ''.pdf'']
   \<and> key_lt [KStr ''l'', KInt 2, KStr ''.pdf''] [KStr ''l'', KInt 10, KStr ''.pdf''] = Inr True
   \<and> list_sort natural_sort_key [''L10.pdf'', ''a.pdf'', ''L2.pdf'']
       = Inr [''a.pdf'', ''L2.pdf'', ''L10.pdf'']"
  by code_simp

text \<open>
  When every candidate either is readable or cannot be opened at all, the writer ends
  with the pages of the readable ones only.
\<close>

lemma process_files_skips_unopenable:
  assumes "\<forall>f\<in>set fl. readable w0 f \<or> unopenable w0 f" and "fs w = fs w0"
  shows "snd (process_files w fl writer)
         = writer @ concat (map (pages_of w0) (filter (readable w0) fl))"
  using assms
proof (induction fl arbitrary: w writer)
  case Nil
  show ?case by simp
next
  case (Cons f fl)
  let ?w1 = "say w (Processing (path_name f))"
  have rd: "PdfReader ?w1 f = PdfReader w0 f"
    using Cons.prems(2) by (simp add: PdfReader_def say_simps)
  have fs1: "fs ?w1 = fs w0" using Cons.prems(2) by (simp add: say_simps)
  from Cons.prems(1) have rest: "\<forall>f\<in>set fl. readable w0 f \<or> unopenable w0 f" by simp
  show ?case
  proof (cases "PdfReader w0 f")
    case (Inl e)
    then have nr: "\<not> readable w0 f" by (simp add: readable_def)
    have "snd (process_files w (f # fl) writer)
          = snd (process_files (say ?w1 (Warning (path_name f) e)) fl writer)"
      using rd Inl by (simp add: Let_def)
    also have "\<dots> = writer @ concat (map (pages_of w0) (filter (readable w0) fl))"
      using Cons.IH [OF rest, of "say ?w1 (Warning (path_name f) e)"] fs1
      by (simp add: say_simps)
    finally show ?thesis using nr by simp
  next
    case (Inr slots)
    then have "\<not> unopenable w0 f" by (simp add: unopenable_def)
    with Cons.prems(1) have r: "readable w0 f" by simp
    then have sl: "list_all is_page slots" using Inr by (simp add: readable_def)
    have pg: "pages_of w0 f = slot_pages slots" using Inr by (simp add: pages_of_def)
    have "snd (process_files w (f # fl) writer)
          = snd (process_files ?w1 fl (writer @ slot_pages slots))"
      using rd Inr sl by (simp add: Let_def add_pages_good)
    also have "\<dots> = (writer @ slot_pages slots)
                     @ concat (map (pages_of w0) (filter (readable w0) fl))"
      using Cons.IH [OF rest fs1] .
    finally show ?thesis using r pg by simp
  qed
qed

section \<open>The order of the sorted list\<close>

lemma str_lt_less: "str_lt a b \<longleftrightarrow> a < b"
  by (induction a b rule: str_lt.induct) (auto simp: code_def less_char_def)

lemma rank_inj: "rank x = rank y \<longleftrightarrow> x = y"
  by (cases x; cases y) auto

lemma key_lt_rank: "wf_key a \<Longrightarrow> wf_key b \<Longrightarrow> key_lt a b = Inr (map rank a < map rank b)"
proof (induction a arbitrary: b rule: wf_key.induct)
  case (1 t)
  then show ?case by (cases b rule: wf_key.cases) (auto simp: str_lt_less)
next
  case (2 t n rest)
  then show ?case by (cases b rule: wf_key.cases) (auto simp: str_lt_less)
qed auto

lemma convert_text_lower:
  assumes "list_all (\<lambda>c. \<not> is_decimal c) t" and "convert t = Inr k"
  shows "k = KStr (str_lower t)"
proof -
  from convert_text [OF assms] obtain u where u: "k = KStr u" ..
  with assms(2) show ?thesis by (auto simp: convert_def split: if_splits sum.splits)
qed

lemma convert_digits_value:
  assumes "d \<noteq> []" and "list_all is_decimal d"
  shows "convert d = Inr (KInt (decimal_value d))"
  using assms decimal_isdigit [OF assms(2)]
  by (simp add: convert_def str_isdigit_def int_of_digits_def decimal_value_def)

text \<open>Whenever a name has a key, the key is the one the specification describes.\<close>

lemma natural_sort_key_spec: "natural_sort_key s = Inr k \<Longrightarrow> map rank k = spec_key s"
  unfolding natural_sort_key_def spec_key_def
proof (induction s arbitrary: k rule: re_split_digits.induct)
  case (1 s)
  let ?nd = "\<lambda>c. \<not> is_decimal c"
  let ?pre = "takeWhile ?nd s" and ?rest = "dropWhile ?nd s"
  have pre: "list_all ?nd ?pre" by (auto simp: list_all_iff dest: set_takeWhileD)
  show ?case
  proof (cases "?rest = []")
    case True
    then have s: "re_split_digits s = [s]" by (rule re_split_no_digit)
    from True have "?pre = s" by (simp add: takeWhile_eq_all_conv)
    with pre have nd: "list_all ?nd s" by simp
    from "1.prems" s obtain u where u: "convert s = Inr u" "k = [u]"
      by (auto split: sum.splits)
    from convert_text_lower [OF nd u(1)] u(2) s show ?thesis by simp
  next
    case False
    let ?dig = "takeWhile is_decimal ?rest" and ?tail = "dropWhile is_decimal ?rest"
    have s: "re_split_digits s = ?pre # ?dig # re_split_digits ?tail"
      using False by (rule re_split_digit)
    have "is_decimal (hd ?rest)" using hd_dropWhile [OF False] by simp
    then have dig_ne: "?dig \<noteq> []" using False by (cases ?rest) auto
    have dig: "list_all is_decimal ?dig" by (auto simp: list_all_iff dest: set_takeWhileD)
    note n = convert_digits_value [OF dig_ne dig]
    from "1.prems" s n obtain u k' where
      u: "convert ?pre = Inr u" and k': "comprehension convert (re_split_digits ?tail) = Inr k'"
      and k: "k = u # KInt (decimal_value ?dig) # k'"
      by (auto split: sum.splits)
    have "map rank k' = tag_runs False (re_split_digits ?tail)"
      using "1.IH" [OF refl refl False k'] .
    with convert_text_lower [OF pre u] k s show ?thesis by simp
  qed
qed

lemma key_lt_spec:
  assumes "natural_sort_key a = Inr ka" and "natural_sort_key b = Inr kb"
  shows "key_lt ka kb = Inr (spec_less a b)"
  using key_lt_rank [OF natural_sort_key_wf [OF assms(1)] natural_sort_key_wf [OF assms(2)]]
        natural_sort_key_spec [OF assms(1)] natural_sort_key_spec [OF assms(2)]
  by (simp add: spec_less_def)

lemma insert_keyed_sorted:
  assumes "wf_key (fst x)" and "\<forall>y\<in>set ys. wf_key (fst y)"
    and "sorted_wrt (\<lambda>a b. map rank (fst a) \<le> map rank (fst b)) ys"
    and "insert_keyed x ys = Inr r"
  shows "sorted_wrt (\<lambda>a b. map rank (fst a) \<le> map rank (fst b)) r"
  using assms(2,3,4)
proof (induction ys arbitrary: r)
  case Nil
  then show ?case by auto
next
  case (Cons y ys)
  have lt: "key_lt (fst y) (fst x) = Inr (map rank (fst y) < map rank (fst x))"
    using key_lt_rank [of "fst y" "fst x"] assms(1) Cons.prems(1) by simp
  show ?case
  proof (cases "map rank (fst y) < map rank (fst x)")
    case True
    with lt Cons.prems(3) obtain r' where r': "insert_keyed x ys = Inr r'" "r = y # r'"
      by (auto split: sum.splits)
    have s': "sorted_wrt (\<lambda>a b. map rank (fst a) \<le> map rank (fst b)) r'"
      using Cons.IH [OF _ _ r'(1)] Cons.prems(1,2) by simp
    have "set r' = insert x (set ys)" by (rule insert_keyed_set [OF r'(1)])
    with True Cons.prems(2) have "\<forall>z\<in>set r'. map rank (fst y) \<le> map rank (fst z)" by auto
    with s' r'(2) show ?thesis by simp
  next
    case False
    with lt Cons.prems(3) have r: "r = x # y # ys" by simp
    from False have xy: "map rank (fst x) \<le> map rank (fst y)" by simp
    with Cons.prems(2) have "\<forall>z\<in>set (y # ys). map rank (fst x) \<le> map rank (fst z)"
      by (auto intro: order_trans)
    with Cons.prems(2) r show ?thesis by simp
  qed
qed

lemma sort_keyed_sorted:
  "\<forall>y\<in>set kxs. wf_key (fst y) \<Longrightarrow> sort_keyed kxs = Inr r \<Longrightarrow>
   sorted_wrt (\<lambda>a b. map rank (fst a) \<le> map rank (fst b)) r"
proof (induction kxs arbitrary: r)
  case Nil
  then show ?case by simp
next
  case (Cons x xs)
  from Cons.prems(2) obtain ys where ys: "sort_keyed xs = Inr ys" "insert_keyed x ys = Inr r"
    by (auto split: sum.splits)
  have wf: "\<forall>y\<in>set ys. wf_key (fst y)" using sort_keyed_set [OF ys(1)] Cons.prems(1) by simp
  have "sorted_wrt (\<lambda>a b. map rank (fst a) \<le> map rank (fst b)) ys"
    using Cons.IH [OF _ ys(1)] Cons.prems(1) by simp
  from insert_keyed_sorted [OF _ wf this ys(2)] Cons.prems(1) show ?case by simp
qed

text \<open>
  When the sort of a list of names returns, no name in the result is followed by one
  that the specification's order puts strictly before it.
\<close>

lemma list_sort_natural_order:
  assumes "list_sort natural_sort_key names = Inr r"
  shows "sorted_wrt (\<lambda>a b. \<not> spec_less b a) r"
proof -
  from assms obtain kxs s where kxs: "comprehension (with_key natural_sort_key) names = Inr kxs"
    and s: "sort_keyed kxs = Inr s" and r: "r = map snd s"
    by (auto simp: list_sort_def split: sum.splits)
  have dec: "\<And>kx. kx \<in> set kxs \<Longrightarrow> natural_sort_key (snd kx) = Inr (fst kx)"
    using decorated_fst [OF kxs] by simp
  then have wf: "\<forall>y\<in>set kxs. wf_key (fst y)" using natural_sort_key_wf by blast
  have decs: "\<And>kx. kx \<in> set s \<Longrightarrow> map rank (fst kx) = spec_key (snd kx)"
    using dec sort_keyed_set [OF s] natural_sort_key_spec by blast
  have "sorted_wrt (\<lambda>a b. map rank (fst a) \<le> map rank (fst b)) s"
    by (rule sort_keyed_sorted [OF wf s])
  then have "sorted_wrt (\<lambda>a b. \<not> spec_less (snd b) (snd a)) s"
    by (rule sorted_wrt_mono_rel [rotated]) (auto simp: spec_less_def decs)
  then show ?thesis unfolding r by (simp add: sorted_wrt_map)
qed

text \<open>
  In particular, wherever the sort returns, \<open>L2.pdf\<close> stands before \<open>L10.pdf\<close>.
\<close>

lemma L2_sorted_before_L10:
  assumes "list_sort natural_sort_key names = Inr r"
    and "i < length r" and "j < length r" and "r ! i = ''L2.pdf''" and "r ! j = ''L10.pdf''"
  shows "i < j"
proof (rule ccontr)
  assume "\<not> i < j"
  moreover have "i \<noteq> j" using assms(4,5) by auto
  ultimately have "j < i" by simp
  with list_sort_natural_order [OF assms(1)] assms(2)
  have "\<not> spec_less (r ! i) (r ! j)" by (simp add: sorted_wrt_iff_nth_less)
  moreover have "spec_less ''L2.pdf'' ''L10.pdf''" by code_simp
  ultimately show False using assms(4,5) by simp
qed

end
